theory Spec2Isabelle
  imports Main "HOL-Library.Multiset" "HOL-Library.Sublist" "HOL-Library.AList"
begin

section \<open>Strings\<close>

text \<open>
  Strings are lists of code units; the model covers the code units below 256
  (ASCII and Latin-1), which is what \<^typ>\<open>char\<close> holds.
\<close>

definition code :: "char \<Rightarrow> nat" where
  "code c = of_char c"

text \<open>The character class \<^verbatim>\<open>[A-Z0-9_]\<close> of the two regular expressions in \<^verbatim>\<open>slug\<close>.\<close>

definition allowed :: "char \<Rightarrow> bool" where
  "allowed c = ((65 \<le> code c \<and> code c \<le> 90) \<or> (48 \<le> code c \<and> code c \<le> 57) \<or> code c = 95)"

text \<open>
  White space and line terminators that \<^verbatim>\<open>String.prototype.trim\<close> removes, among the
  code units below 256: TAB, LF, VT, FF, CR, SPACE and NO-BREAK SPACE.
\<close>

definition is_space :: "char \<Rightarrow> bool" where
  "is_space c = (code c \<in> {9, 10, 11, 12, 13, 32, 160})"

definition drop_end :: "('a \<Rightarrow> bool) \<Rightarrow> 'a list \<Rightarrow> 'a list" where
  "drop_end P xs = rev (dropWhile P (rev xs))"

definition trim :: "string \<Rightarrow> string" where
  "trim s = drop_end is_space (dropWhile is_space s)"

text \<open>
  \<^verbatim>\<open>String.prototype.toUpperCase\<close> on one code unit: \<^verbatim>\<open>a-z\<close> go to \<^verbatim>\<open>A-Z\<close>, sharp s
  (223) goes to the two letters \<^verbatim>\<open>SS\<close>, the accented Latin-1 small letters (224 to 254,
  the division sign 247 apart) go 32 down. Micro sign (181) and y with diaeresis (255)
  have capitals above 255 and are kept: like every other code unit from 128 on, they
  are outside \<^verbatim>\<open>[A-Z0-9_]\<close> before and after.
\<close>

definition upper_unit :: "char \<Rightarrow> string" where
  "upper_unit c =
     (if 97 \<le> code c \<and> code c \<le> 122 then [char_of (code c - 32)]
      else if code c = 223 then ''SS''
      else if 224 \<le> code c \<and> code c \<le> 254 \<and> code c \<noteq> 247 then [char_of (code c - 32)]
      else [c])"

definition toUpperCase :: "string \<Rightarrow> string" where
  "toUpperCase s = concat (map upper_unit s)"

text \<open>
  \<^verbatim>\<open>.replace(/[^A-Z0-9_]+/g, "_")\<close>: scanning from the left, a code unit of the class is
  copied, and a maximal run of code units outside the class gives one underscore.
\<close>

function replace_runs :: "string \<Rightarrow> string" where
  "replace_runs [] = []"
| "replace_runs (c # cs) =
     (if allowed c then c # replace_runs cs
      else CHR ''_'' # replace_runs (dropWhile (\<lambda>d. \<not> allowed d) cs))"
  by pat_completeness auto
termination
  by (relation "measure length") (auto simp: le_imp_less_Suc length_dropWhile_le)

text \<open>\<^verbatim>\<open>.replace(/^_+|_+$/g, "")\<close>: the leading and the trailing underscores go.\<close>

definition strip_underscores :: "string \<Rightarrow> string" where
  "strip_underscores s = drop_end (\<lambda>c. c = CHR ''_'') (dropWhile (\<lambda>c. c = CHR ''_'') s)"

text \<open>
  \<^verbatim>\<open>const slug = (s = "") =>
    s.trim().toUpperCase().replace(/[^A-Z0-9_]+/g, "_").replace(/^_+|_+$/g, "");\<close>
\<close>

definition slug :: "string \<Rightarrow> string" where
  "slug s = strip_underscores (replace_runs (toUpperCase (trim s)))"

section \<open>Numbers and paths\<close>

definition is_digit :: "char \<Rightarrow> bool" where
  "is_digit c = (48 \<le> code c \<and> code c \<le> 57)"

definition digit :: "nat \<Rightarrow> char" where
  "digit d = char_of (48 + d)"

text \<open>A template literal prints a whole number in decimal: \<^verbatim>\<open>`${counter}`\<close>, \<^verbatim>\<open>`${Date.now()}`\<close>.\<close>

fun show_nat :: "nat \<Rightarrow> string" where
  "show_nat n = (if n < 10 then [digit n] else show_nat (n div 10) @ [digit (n mod 10)])"

declare show_nat.simps [simp del]

definition digits_value :: "string \<Rightarrow> nat" where
  "digits_value s = foldl (\<lambda>n c. 10 * n + (code c - 48)) 0 s"

text \<open>
  \<^verbatim>\<open>Number.parseInt(s, 10)\<close>: leading white space is skipped, a sign is read, then the
  longest run of decimal digits; \<open>None\<close> is \<^verbatim>\<open>NaN\<close> (no digit).
\<close>

definition parseInt10 :: "string \<Rightarrow> int option" where
  "parseInt10 s =
     (let t = dropWhile is_space s;
          neg = (t \<noteq> [] \<and> hd t = CHR ''-'');
          u = (if t \<noteq> [] \<and> (hd t = CHR ''-'' \<or> hd t = CHR ''+'') then tl t else t);
          ds = takeWhile is_digit u
      in if ds = [] then None
         else Some (if neg then - int (digits_value ds) else int (digits_value ds)))"

text \<open>
  \<^verbatim>\<open>String.prototype.toLowerCase\<close> on one code unit: \<^verbatim>\<open>A-Z\<close> and the accented Latin-1
  capitals (192 to 222, the multiplication sign 215 apart) go 32 up.
\<close>

definition lower_unit :: "char \<Rightarrow> char" where
  "lower_unit c =
     (if 65 \<le> code c \<and> code c \<le> 90 then char_of (code c + 32)
      else if 192 \<le> code c \<and> code c \<le> 222 \<and> code c \<noteq> 215 then char_of (code c + 32)
      else c)"

definition toLowerCase :: "string \<Rightarrow> string" where
  "toLowerCase s = map lower_unit s"

text \<open>
  The functions of Node's \<^verbatim>\<open>path\<close> module that the server calls, for POSIX paths.
  The last component of a path is what follows its last slash, trailing slashes apart.
\<close>

definition last_component :: "string \<Rightarrow> string" where
  "last_component p =
     rev (takeWhile (\<lambda>c. c \<noteq> CHR ''/'') (rev (drop_end (\<lambda>c. c = CHR ''/'') p)))"

definition basename :: "string \<Rightarrow> string" where
  "basename p = last_component p"

text \<open>
  \<^verbatim>\<open>path.extname\<close>: from the last dot of the last component to its end; empty when the
  component has no dot, when its only dot is its first character, and for \<^verbatim>\<open>..\<close>.
\<close>

definition extname :: "string \<Rightarrow> string" where
  "extname p =
     (let b = last_component p;
          e = rev (takeWhile (\<lambda>c. c \<noteq> CHR ''.'') (rev b))
      in if CHR ''.'' \<notin> set b then []
         else if length e + 1 = length b then []
         else if b = ''..'' then []
         else CHR ''.'' # e)"

text \<open>
  \<^verbatim>\<open>const safeExt = (name, allowed) => {
    const ext = String(path.extname(name)).toLowerCase().replace(".", "");
    return allowed.includes(ext) ? ext : null;
  };\<close>
\<close>

definition safeExt :: "string \<Rightarrow> string list \<Rightarrow> string option" where
  "safeExt name allowed_exts =
     (let ext = remove1 (CHR ''.'') (toLowerCase (extname name))
      in if ext \<in> set allowed_exts then Some ext else None)"

definition image_exts :: "string list" where
  "image_exts = [''jpg'', ''jpeg'', ''png'', ''webp'']"

definition drop_prefix :: "string \<Rightarrow> string \<Rightarrow> string" where
  "drop_prefix p s = (if prefix p s then drop (length p) s else s)"

definition drop_suffix :: "string \<Rightarrow> string \<Rightarrow> string" where
  "drop_suffix p s = (if suffix p s then take (length s - length p) s else s)"

section \<open>The catalogue document\<close>

text \<open>
  A value of \<^verbatim>\<open>themeData\<close>: a string (an asset path, or the text of a \<^verbatim>\<open>data[...]\<close>
  field) or an array of asset paths.
\<close>

datatype tdval = Single string | Many "string list"

text \<open>
  A design record. The keys that a record may lack are options. Numbers are integers:
  timestamps are \<^verbatim>\<open>Date.now()\<close> and positions are indices, all far below \<open>2^53\<close>, where
  JavaScript's numbers are exact.
\<close>

record design =
  design_id :: string
  theme :: string
  label :: string
  finish :: string
  faces :: int
  updatedAt :: int
  createdAt :: "int option"
  position :: "int option"
  main :: "string option"
  variants :: "string list option"
  video :: "string option"
  preview :: "string option"
  sizeText :: "string option"
  themeData :: "(string \<times> tdval) list option"

text \<open>The document \<^verbatim>\<open>catalogue.json\<close>; an empty string is a branding field that is missing.\<close>

record doc =
  brandLogo :: string
  sizeIcon :: string
  designs :: "design list"

text \<open>
  What a handler sends back. \<open>Ordered\<close> is the answer of the reorder route; an entry is
  \<open>None\<close> where the code puts \<^verbatim>\<open>undefined\<close> into the array (\<^verbatim>\<open>null\<close> in JSON).
\<close>

datatype response =
    Error nat string
  | Catalogue doc
  | Ordered "design option list"
  | Deleted "design list" bool

subsection \<open>Display order\<close>

text \<open>
  \<^verbatim>\<open>(a, b) => {
    const pa = (a.position ?? 1e12);
    const pb = (b.position ?? 1e12);
    return pa !== pb ? pa - pb : (a.createdAt || 0) - (b.createdAt || 0);
  }\<close>
\<close>

definition position_key :: "design \<Rightarrow> int" where
  "position_key a = (case position a of None \<Rightarrow> 1000000000000 | Some p \<Rightarrow> p)"

definition created_key :: "design \<Rightarrow> int" where
  "created_key a = (case createdAt a of None \<Rightarrow> 0 | Some c \<Rightarrow> c)"

definition compare_designs :: "design \<Rightarrow> design \<Rightarrow> int" where
  "compare_designs a b =
     (let pa = position_key a; pb = position_key b
      in if pa \<noteq> pb then pa - pb else created_key a - created_key b)"

text \<open>
  \<^verbatim>\<open>Array.prototype.sort\<close> with this comparator. The sort of the language is stable, and
  the comparator is consistent, so the result is fixed: the elements in comparator
  order, equal ones in their former order. That is what stable insertion gives.
\<close>

fun insert_design :: "design \<Rightarrow> design list \<Rightarrow> design list" where
  "insert_design x [] = [x]"
| "insert_design x (y # ys) =
     (if compare_designs x y \<le> 0 then x # y # ys else y # insert_design x ys)"

definition js_sort :: "design list \<Rightarrow> design list" where
  "js_sort ds = foldr insert_design ds []"

text \<open>The designs are in display order: no record is after one it sorts before.\<close>

definition position_sorted :: "design list \<Rightarrow> bool" where
  "position_sorted ds = sorted_wrt (\<lambda>a b. compare_designs a b \<le> 0) ds"

text \<open>
  \<^verbatim>\<open>GET /api/designs\<close>: the document with its designs sorted; nothing is written.
\<close>

definition get_designs :: "doc \<Rightarrow> response" where
  "get_designs d = Catalogue (d\<lparr>designs := js_sort (designs d)\<rparr>)"

text \<open>
  The order the specification words: a missing position is \<open>+\<infinity>\<close>, so a record with a
  position comes before every record without one; ties go by \<^verbatim>\<open>createdAt\<close>.
\<close>

definition spec_before :: "design \<Rightarrow> design \<Rightarrow> bool" where
  "spec_before a b =
     (case (position a, position b) of
        (Some p, Some q) \<Rightarrow> p < q \<or> (p = q \<and> created_key a \<le> created_key b)
      | (Some p, None) \<Rightarrow> True
      | (None, Some q) \<Rightarrow> False
      | (None, None) \<Rightarrow> created_key a \<le> created_key b)"

section \<open>Upload\<close>

text \<open>
  The text fields of the request as the route sees them in \<^verbatim>\<open>req.body\<close>; an empty
  string is a field that is missing (the code reads each as \<^verbatim>\<open>req.body.x || ""\<close>).
  \<open>req_data\<close> holds the \<^verbatim>\<open>data[key]\<close> fields, key and text.
\<close>

record body =
  req_id :: string
  req_label :: string
  req_finish :: string
  req_faces :: string
  req_theme :: string
  req_data :: "(string \<times> string) list"

text \<open>An uploaded file as multer hands it over in \<^verbatim>\<open>req.files\<close>.\<close>

record upfile =
  fieldname :: string
  originalname :: string
  path :: string

subsection \<open>Where multer stores a file\<close>

text \<open>
  The \<^verbatim>\<open>destination\<close> and \<^verbatim>\<open>filename\<close> callbacks of the disk storage; \<open>stamp\<close> is what
  \<^verbatim>\<open>Date.now()\<close> returns inside \<^verbatim>\<open>filename\<close>. Directories are written from the
  \<^verbatim>\<open>public\<close> folder.
\<close>

definition baseAX :: string where
  "baseAX = ''public/AXOLI/DATA''"

definition multer_destination :: "string \<Rightarrow> string \<Rightarrow> string \<Rightarrow> string" where
  "multer_destination tn idn f =
     (if tn = ''default'' then
        (if f = ''main'' then baseAX @ ''/TILES/'' @ idn
         else if prefix ''variants'' f then baseAX @ ''/TILES/'' @ idn
         else if f = ''video'' then baseAX @ ''/VIDEO''
         else if f = ''preview'' then baseAX @ ''/PREVIEW''
         else baseAX @ ''/ASSETS/'' @ idn)
      else baseAX @ ''/ASSETS/'' @ idn)"

definition multer_filename :: "string \<Rightarrow> string \<Rightarrow> string \<Rightarrow> string \<Rightarrow> nat \<Rightarrow> string" where
  "multer_filename tn idn f original stamp =
     (let ext = toLowerCase (extname original) in
      if tn = ''default'' then
        (if f = ''main'' then idn @ ''_R1'' @ ext
         else if prefix ''variants'' f then idn @ ''_RVAR'' @ show_nat stamp @ ext
         else if f = ''video'' then idn @ ext
         else if f = ''preview'' then idn @ ext
         else f @ ext)
      else f @ ''_'' @ show_nat stamp @ ext)"

text \<open>
  The file object of a part with field name \<open>f\<close> and client file name \<open>original\<close>: its
  path is the destination joined with the file name (a file name without a slash is
  one more component).
\<close>

definition multer_file :: "string \<Rightarrow> string \<Rightarrow> string \<Rightarrow> string \<Rightarrow> nat \<Rightarrow> upfile" where
  "multer_file tn idn f original stamp =
     \<lparr>fieldname = f, originalname = original,
      path = multer_destination tn idn f @ ''/'' @ multer_filename tn idn f original stamp\<rparr>"

subsection \<open>Grouping the files by field\<close>

text \<open>
  \<^verbatim>\<open>const filesByField = {};
  (req.files || []).forEach(f => { (filesByField[f.fieldname] ||= []).push(f); });\<close>

  The object is an association list, the keys in the order of their first file. A field
  named like a property that every object inherits finds that property instead of an
  array, and \<^verbatim>\<open>push\<close> throws; the route answers 500.
\<close>

definition object_prototype_names :: "string list" where
  "object_prototype_names =
     [''__proto__'', ''constructor'', ''hasOwnProperty'', ''isPrototypeOf'',
      ''propertyIsEnumerable'', ''toLocaleString'', ''toString'', ''valueOf'',
      ''__defineGetter__'', ''__defineSetter__'', ''__lookupGetter__'', ''__lookupSetter__'']"

fun push_file :: "upfile \<Rightarrow> (string \<times> upfile list) list \<Rightarrow> (string \<times> upfile list) list" where
  "push_file f [] = [(fieldname f, [f])]"
| "push_file f ((k, fs) # g) =
     (if k = fieldname f then (k, fs @ [f]) # g else (k, fs) # push_file f g)"

definition filesByField :: "upfile list \<Rightarrow> (string \<times> upfile list) list" where
  "filesByField files = foldl (\<lambda>g f. push_file f g) [] files"

text \<open>\<^verbatim>\<open>(filesByField[k] || [])[0]\<close>\<close>

definition first_file :: "(string \<times> upfile list) list \<Rightarrow> string \<Rightarrow> upfile option" where
  "first_file g k =
     (case map_of g k of None \<Rightarrow> None | Some fs \<Rightarrow> (case fs of [] \<Rightarrow> None | f # _ \<Rightarrow> Some f))"

text \<open>
  \<^verbatim>\<open>Object.entries\<close> lists the keys that are array indices first, in ascending order,
  then the other keys in the order they were added.
\<close>

definition is_array_index :: "string \<Rightarrow> bool" where
  "is_array_index k =
     (k \<noteq> [] \<and> list_all is_digit k \<and> (k = ''0'' \<or> hd k \<noteq> CHR ''0'') \<and>
      digits_value k < 4294967295)"

definition object_entries :: "(string \<times> 'v) list \<Rightarrow> (string \<times> 'v) list" where
  "object_entries obj =
     sort_key (\<lambda>e. digits_value (fst e)) (filter (\<lambda>e. is_array_index (fst e)) obj) @
     filter (\<lambda>e. \<not> is_array_index (fst e)) obj"

subsection \<open>Objects as association lists\<close>

text \<open>
  \<^verbatim>\<open>obj[k] = v\<close> on a plain object. The key \<^verbatim>\<open>__proto__\<close> is the inherited accessor:
  assigning a string or an array to it adds no key.
\<close>

definition obj_set :: "string \<Rightarrow> 'v \<Rightarrow> (string \<times> 'v) list \<Rightarrow> (string \<times> 'v) list" where
  "obj_set k v obj = (if k = ''__proto__'' then obj else AList.update k v obj)"

text \<open>\<^verbatim>\<open>{ ...a, ...b }\<close> on two such objects: the keys of \<open>b\<close> are set on \<open>a\<close>, in order.\<close>

definition spread_obj :: "(string \<times> 'v) list \<Rightarrow> (string \<times> 'v) list \<Rightarrow> (string \<times> 'v) list" where
  "spread_obj a b = foldl (\<lambda>acc e. AList.update (fst e) (snd e) acc) a b"

definition or_else :: "'a option \<Rightarrow> 'a option \<Rightarrow> 'a option" where
  "or_else new old = (case new of Some v \<Rightarrow> Some v | None \<Rightarrow> old)"

text \<open>
  \<^verbatim>\<open>{ ...data.designs[idx], ...payload }\<close>: a key of the payload replaces the stored one,
  a key the payload lacks is kept. Every payload has \<^verbatim>\<open>id\<close>, \<^verbatim>\<open>theme\<close>, \<^verbatim>\<open>label\<close>,
  \<^verbatim>\<open>finish\<close>, \<^verbatim>\<open>faces\<close> and \<^verbatim>\<open>updatedAt\<close>.
\<close>

definition spread :: "design \<Rightarrow> design \<Rightarrow> design" where
  "spread old payload =
     \<lparr>design_id = design_id payload, theme = theme payload, label = label payload,
      finish = finish payload, faces = faces payload, updatedAt = updatedAt payload,
      createdAt = or_else (createdAt payload) (createdAt old),
      position = or_else (position payload) (position old),
      main = or_else (main payload) (main old),
      variants = or_else (variants payload) (variants old),
      video = or_else (video payload) (video old),
      preview = or_else (preview payload) (preview old),
      sizeText = or_else (sizeText payload) (sizeText old),
      themeData = or_else (themeData payload) (themeData old)\<rparr>"

subsection \<open>The default theme\<close>

text \<open>\<^verbatim>\<open>filesByField["variants[]"] || filesByField["variants"] || []\<close>\<close>

definition variant_files :: "(string \<times> upfile list) list \<Rightarrow> upfile list" where
  "variant_files g =
     (case map_of g ''variants[]'' of
        Some fs \<Rightarrow> fs
      | None \<Rightarrow> (case map_of g ''variants'' of Some fs \<Rightarrow> fs | None \<Rightarrow> []))"

text \<open>
  \<^verbatim>\<open>let counter = 2;
  for (const f of variants) {
    const ext = safeExt(f.originalname, ["jpg","jpeg","png","webp"]);
    if (!ext) continue;
    const newName = `${id}_R${counter}.${ext}`;
    const dest = path.join(tilesDir, newName);
    await fs.move(f.path, dest, { overwrite: true });
    variantRels.push(`../AXOLI/DATA/TILES/${id}/${newName}`);
    counter++;
  }\<close>

  The loop, as the list of its moves: the path multer gave the file and its new name in
  the tiles directory.
\<close>

fun rename_variants :: "string \<Rightarrow> nat \<Rightarrow> upfile list \<Rightarrow> (string \<times> string) list" where
  "rename_variants idn counter [] = []"
| "rename_variants idn counter (f # fs) =
     (case safeExt (originalname f) image_exts of
        None \<Rightarrow> rename_variants idn counter fs
      | Some ext \<Rightarrow>
          (path f, idn @ ''_R'' @ show_nat counter @ ''.'' @ ext) #
          rename_variants idn (counter + 1) fs)"

definition tiles_rel :: "string \<Rightarrow> string \<Rightarrow> string" where
  "tiles_rel idn name = ''../AXOLI/DATA/TILES/'' @ idn @ ''/'' @ name"

definition label_of :: "body \<Rightarrow> string \<Rightarrow> string" where
  "label_of b idn = (if req_label b = [] then idn else req_label b)"

text \<open>\<^verbatim>\<open>Number.parseInt(req.body.faces || "0", 10) || 0\<close>\<close>

definition faces_of :: "body \<Rightarrow> int" where
  "faces_of b =
     (case parseInt10 (if req_faces b = [] then ''0'' else req_faces b) of
        None \<Rightarrow> 0 | Some n \<Rightarrow> n)"

text \<open>
  The payload of the default branch (lines 176 to 232), or the status and message of the
  early return for a main image, video or preview with a wrong extension. \<open>fresh\<close> is
  \<^verbatim>\<open>idx < 0\<close>.
\<close>

definition default_payload ::
  "body \<Rightarrow> (string \<times> upfile list) list \<Rightarrow> int \<Rightarrow> string \<Rightarrow> bool \<Rightarrow> (nat \<times> string) + design" where
  "default_payload b g now idn fresh =
     (let mainFile = first_file g ''main'' in
      if (case mainFile of None \<Rightarrow> False | Some m \<Rightarrow> safeExt (originalname m) image_exts = None)
      then Inl (400, ''Main: invalid image type'')
      else
        let mainRel = map_option (\<lambda>m. tiles_rel idn (basename (path m))) mainFile;
            variantRels = map (\<lambda>mv. tiles_rel idn (snd mv)) (rename_variants idn 2 (variant_files g));
            vid = first_file g ''video''
        in
        if (case vid of None \<Rightarrow> False | Some v \<Rightarrow> safeExt (originalname v) [''mp4''] = None)
        then Inl (400, ''Video: only mp4 allowed'')
        else
          let videoRel = map_option (\<lambda>v. ''../AXOLI/DATA/VIDEO/'' @ idn @ ''.mp4'') vid;
              prev = first_file g ''preview''
          in
          if (case prev of None \<Rightarrow> False | Some p \<Rightarrow> safeExt (originalname p) image_exts = None)
          then Inl (400, ''Preview: invalid image type'')
          else
            let previewRel =
                  (case prev of
                     None \<Rightarrow> None
                   | Some p \<Rightarrow>
                       map_option (\<lambda>ext. ''../AXOLI/DATA/PREVIEW/'' @ idn @ ''.'' @ ext)
                         (safeExt (originalname p) image_exts))
            in
            Inr \<lparr>design_id = idn, theme = ''default'', label = label_of b idn,
                 finish = req_finish b, faces = faces_of b, updatedAt = now,
                 createdAt = (if fresh then Some now else None),
                 position = None,
                 main = mainRel,
                 variants = (if variantRels = [] then None else Some variantRels),
                 video = videoRel,
                 preview = previewRel,
                 sizeText = map_of (req_data b) ''size_text'',
                 themeData = None\<rparr>)"

subsection \<open>The other themes\<close>

text \<open>
  \<^verbatim>\<open>const cleanFieldName = field
    .replace(/^files\[/, '')   // remove leading files[
    .replace(/\]\[\]$/, '')    // remove ending ][]
    .replace(/\]$/, '');       // remove ending ]\<close>
\<close>

definition cleanFieldName :: "string \<Rightarrow> string" where
  "cleanFieldName field = drop_suffix '']'' (drop_suffix ''][]'' (drop_prefix ''files['' field))"

definition reserved_fields :: "string list" where
  "reserved_fields = [''main'', ''variants'', ''variants[]'', ''video'', ''preview'']"

definition asset_rel :: "string \<Rightarrow> upfile \<Rightarrow> string" where
  "asset_rel idn f = ''../AXOLI/DATA/ASSETS/'' @ idn @ ''/'' @ basename (path f)"

text \<open>
  The loop over \<^verbatim>\<open>Object.entries(filesByField)\<close> (lines 249 to 265), on the entries and
  the \<^verbatim>\<open>themeData\<close> built so far.
\<close>

fun file_entries ::
  "string \<Rightarrow> (string \<times> upfile list) list \<Rightarrow> (string \<times> tdval) list \<Rightarrow> (string \<times> tdval) list" where
  "file_entries idn [] td = td"
| "file_entries idn ((field, arr) # es) td =
     (if field \<in> set reserved_fields then file_entries idn es td
      else if arr = [] then file_entries idn es td
      else file_entries idn es
             (obj_set (cleanFieldName field)
                (if length arr = 1 then Single (asset_rel idn (hd arr))
                 else Many (map (asset_rel idn) arr))
                td))"

text \<open>The \<^verbatim>\<open>themeData\<close> of the request: the \<^verbatim>\<open>data[...]\<close> fields, then the file fields.\<close>

definition request_themeData ::
  "body \<Rightarrow> (string \<times> upfile list) list \<Rightarrow> string \<Rightarrow> (string \<times> tdval) list" where
  "request_themeData b g idn =
     file_entries idn (object_entries g)
       (foldl (\<lambda>td e. obj_set (fst e) (Single (snd e)) td) [] (req_data b))"

text \<open>
  The payload of the other branch (lines 269 to 278); \<open>old\<close> is the stored record of the
  id, if there is one.
\<close>

definition theme_payload ::
  "body \<Rightarrow> (string \<times> upfile list) list \<Rightarrow> int \<Rightarrow> string \<Rightarrow> string \<Rightarrow> design option \<Rightarrow> design" where
  "theme_payload b g now idn tn old =
     \<lparr>design_id = idn, theme = tn, label = label_of b idn,
      finish = req_finish b, faces = faces_of b, updatedAt = now,
      createdAt = (if old = None then Some now else None),
      position = None, main = None, variants = None, video = None, preview = None,
      sizeText = None,
      themeData =
        Some (spread_obj
                (case old of
                   None \<Rightarrow> []
                 | Some r \<Rightarrow> (case themeData r of None \<Rightarrow> [] | Some t \<Rightarrow> t))
                (request_themeData b g idn))\<rparr>"

subsection \<open>The route\<close>

text \<open>\<^verbatim>\<open>data.designs.findIndex((d) => d.id === id)\<close>; \<open>None\<close> is \<open>-1\<close>.\<close>

fun findIndex :: "string \<Rightarrow> design list \<Rightarrow> nat option" where
  "findIndex idn [] = None"
| "findIndex idn (d # ds) =
     (if design_id d = idn then Some 0 else map_option Suc (findIndex idn ds))"

text \<open>
  \<^verbatim>\<open>if (idx >= 0) data.designs[idx] = { ...data.designs[idx], ...payload };
  else data.designs.push(payload);\<close>
\<close>

definition upsert :: "design list \<Rightarrow> nat option \<Rightarrow> design \<Rightarrow> design list" where
  "upsert ds idx payload =
     (case idx of
        Some i \<Rightarrow> ds[i := spread (ds ! i) payload]
      | None \<Rightarrow> ds @ [payload])"

text \<open>
  The payload a request builds against a store, once the id is known and the files are
  grouped.
\<close>

definition request_payload ::
  "doc \<Rightarrow> body \<Rightarrow> upfile list \<Rightarrow> int \<Rightarrow> (nat \<times> string) + design" where
  "request_payload d b files now =
     (let idn = slug (req_id b);
          tn = (if req_theme b = [] then ''default'' else req_theme b);
          g = filesByField files;
          idx = findIndex idn (designs d)
      in if tn = ''default'' then default_payload b g now idn (idx = None)
         else Inr (theme_payload b g now idn tn (map_option (\<lambda>i. designs d ! i) idx)))"

text \<open>
  \<^verbatim>\<open>POST /api/upload\<close>, after multer: the answer and the document in the store
  afterwards. File and directory operations are taken to succeed.
\<close>

definition upload :: "doc \<Rightarrow> body \<Rightarrow> upfile list \<Rightarrow> int \<Rightarrow> response \<times> doc" where
  "upload d b files now =
     (let idn = slug (req_id b) in
      if idn = [] then (Error 400 ''Missing id (couldn't derive from filename)'', d)
      else if list_ex (\<lambda>f. fieldname f \<in> set object_prototype_names) files
      then (Error 500 ''Upload failed'', d)
      else
        let data = d\<lparr>brandLogo := (if brandLogo d = [] then ''../AXOLI/DATA/logo.svg'' else brandLogo d),
                      sizeIcon := (if sizeIcon d = [] then ''../AXOLI/DATA/size.svg'' else sizeIcon d)\<rparr>
        in
        (case request_payload data b files now of
           Inl e \<Rightarrow> (Error (fst e) (snd e), d)
         | Inr payload \<Rightarrow>
             let data' = data\<lparr>designs := upsert (designs data) (findIndex idn (designs data)) payload\<rparr>
             in (Catalogue data', data')))"

section \<open>Reorder\<close>

text \<open>
  \<^verbatim>\<open>new Map(designs.map(d => [d.id, d]))\<close>: of two records with one id the later one
  stays.
\<close>

definition byId_of :: "design list \<Rightarrow> (string \<rightharpoonup> design)" where
  "byId_of ds = map_of (rev (map (\<lambda>d. (design_id d, d)) ds))"

text \<open>
  \<^verbatim>\<open>const set = new Set(order);
  const it = order[Symbol.iterator]();
  newIds = current.map(d => (set.has(d.id) ? it.next().value : d.id));\<close>

  \<open>it\<close> is what the iterator has left; once it is used up, \<^verbatim>\<open>it.next().value\<close> is
  \<^verbatim>\<open>undefined\<close>, here \<open>None\<close>.
\<close>

fun substitute :: "string list \<Rightarrow> string list \<Rightarrow> string list \<Rightarrow> string option list" where
  "substitute ord it [] = []"
| "substitute ord it (c # cs) =
     (if c \<in> set ord then
        (case it of
           [] \<Rightarrow> None # substitute ord [] cs
         | x # rest \<Rightarrow> Some x # substitute ord rest cs)
      else Some c # substitute ord it cs)"

text \<open>
  \<^verbatim>\<open>newIds.forEach((id, i) => {
    const d = byId.get(id);
    if (d) d.position = i + 1;
  });\<close>

  The records are objects shared with the map, so the assignment is an update of the
  map; \<open>i\<close> is the index reached.
\<close>

fun assign_positions ::
  "(string \<rightharpoonup> design) \<Rightarrow> nat \<Rightarrow> string option list \<Rightarrow> (string \<rightharpoonup> design)" where
  "assign_positions m i [] = m"
| "assign_positions m i (None # ids) = assign_positions m (i + 1) ids"
| "assign_positions m i (Some k # ids) =
     (case m k of
        None \<Rightarrow> assign_positions m (i + 1) ids
      | Some d \<Rightarrow> assign_positions (m(k \<mapsto> d\<lparr>position := Some (int i + 1)\<rparr>)) (i + 1) ids)"

text \<open>\<^verbatim>\<open>data.designs = newIds.map(id => byId.get(id));\<close> after the positions are set.\<close>

definition reordered :: "design list \<Rightarrow> string option list \<Rightarrow> design option list" where
  "reordered ds newIds =
     (let m = assign_positions (byId_of ds) 0 newIds
      in map (\<lambda>e. case e of None \<Rightarrow> None | Some k \<Rightarrow> m k) newIds)"

text \<open>
  \<^verbatim>\<open>PUT /api/designs/order\<close> with body \<^verbatim>\<open>{ theme, order }\<close>. \<open>tn\<close> is empty when the
  body has no theme; \<open>order_in\<close> is \<open>None\<close> when \<^verbatim>\<open>order\<close> is not an array, and its
  elements are id strings. The result is the answer and the \<^verbatim>\<open>designs\<close> array of the
  store afterwards.
\<close>

definition put_order ::
  "doc \<Rightarrow> string \<Rightarrow> string list option \<Rightarrow> response \<times> design option list" where
  "put_order d tn order_in =
     (let stored = map Some (designs d) in
      case order_in of
        None \<Rightarrow> (Error 400 ''Provide 'order' as a non-empty array of IDs.'', stored)
      | Some ord \<Rightarrow>
          if ord = [] then (Error 400 ''Provide 'order' as a non-empty array of IDs.'', stored)
          else
            let current = js_sort (designs d);
                ids = map design_id current
            in
            if tn \<noteq> [] \<and> tn \<noteq> ''all'' then
              (let written = reordered (designs d) (substitute ord ord ids)
               in (Ordered written, written))
            else if length ord \<noteq> length (remdups ids) \<or> list_ex (\<lambda>k. k \<notin> set ids) ord
            then (Error 400 ''Global reorder must include all existing design IDs.'', stored)
            else
              (let written = reordered (designs d) (map Some ord)
               in (Ordered written, written)))"

section \<open>Delete\<close>

text \<open>
  \<^verbatim>\<open>DELETE /api/designs/:id\<close>; \<open>raw\<close> is \<^verbatim>\<open>req.params.id\<close>. The answer carries the
  designs that stay and whether a record had the id.
\<close>

definition delete_design :: "doc \<Rightarrow> string \<Rightarrow> response \<times> doc" where
  "delete_design d raw =
     (let idn = slug raw in
      if idn = [] then (Error 400 ''Missing id'', d)
      else
        let exists = list_ex (\<lambda>r. design_id r = idn) (designs d);
            kept = filter (\<lambda>r. design_id r \<noteq> idn) (designs d)
        in (Deleted kept exists, d\<lparr>designs := kept\<rparr>))"

section \<open>Sample requests and stores\<close>

text \<open>The catalogue the server seeds at start-up, and the text fields of an upload.\<close>

definition seeded :: doc where
  "seeded = \<lparr>brandLogo = ''../AXOLI/DATA/logo.svg'', sizeIcon = ''../AXOLI/DATA/size.svg'',
             designs = []\<rparr>"

definition fields_of :: "string \<Rightarrow> string \<Rightarrow> body" where
  "fields_of raw_id tn =
     \<lparr>req_id = raw_id, req_label = [], req_finish = [], req_faces = [], req_theme = tn,
      req_data = []\<rparr>"

text \<open>
  The record that the upload of an id makes at time \<open>t\<close> in an empty slot, with no file
  and no other field, and the stores after two and after four such uploads.
\<close>

definition tile :: "string \<Rightarrow> int \<Rightarrow> design" where
  "tile idn t =
     \<lparr>design_id = idn, theme = ''default'', label = idn, finish = [], faces = 0,
      updatedAt = t, createdAt = Some t, position = None,
      main = None, variants = None, video = None, preview = None, sizeText = None,
      themeData = None\<rparr>"

definition two_tiles :: doc where
  "two_tiles = seeded\<lparr>designs := [tile ''A'' 100, tile ''B'' 200]\<rparr>"

definition four_tiles :: doc where
  "four_tiles =
     seeded\<lparr>designs := [tile ''A'' 100, tile ''B'' 200, tile ''C'' 300, tile ''D'' 400]\<rparr>"


text \<open>
  Two records by hand: one with a position beyond \<open>10^12\<close>, one without a position.
\<close>

definition far_tile :: design where
  "far_tile =
     \<lparr>design_id = ''FAR'', theme = ''default'', label = ''FAR'', finish = [], faces = 0,
      updatedAt = 100, createdAt = Some 100, position = Some 2000000000000,
      main = None, variants = None, video = None, preview = None, sizeText = None,
      themeData = None\<rparr>"

definition new_tile :: design where
  "new_tile =
     \<lparr>design_id = ''NEW'', theme = ''default'', label = ''NEW'', finish = [], faces = 0,
      updatedAt = 200, createdAt = Some 200, position = None,
      main = None, variants = None, video = None, preview = None, sizeText = None,
      themeData = None\<rparr>"

text \<open>
  Two uploads for the id \<^verbatim>\<open>TILE1\<close> under the theme \<^verbatim>\<open>neo\<close>, the first with a file in the
  field \<^verbatim>\<open>files[hero]\<close> at time 100, the second with a file in the field \<^verbatim>\<open>files[badge]\<close>
  at time 200, and the stores they leave, starting from the seeded catalogue.
\<close>

definition hero_file :: upfile where
  "hero_file = multer_file ''neo'' ''TILE1'' ''files[hero]'' ''h.PNG'' 7"


definition hero_store :: doc where
  "hero_store =
     seeded\<lparr>designs :=
       [\<lparr>design_id = ''TILE1'', theme = ''neo'', label = ''TILE1'', finish = [], faces = 0,
         updatedAt = 100, createdAt = Some 100, position = None,
         main = None, variants = None, video = None, preview = None, sizeText = None,
         themeData =
           Some [(''hero'', Single ''../AXOLI/DATA/ASSETS/TILE1/files[hero]_7.png'')]\<rparr>]\<rparr>"


text \<open>
  The store after an upload for the id \<^verbatim>\<open>T\<close> under the theme \<^verbatim>\<open>neo\<close> whose only file is
  in the field \<^verbatim>\<open>main\<close>.
\<close>

definition main_only_store :: doc where
  "main_only_store =
     seeded\<lparr>designs :=
       [\<lparr>design_id = ''T'', theme = ''neo'', label = ''T'', finish = [], faces = 0,
         updatedAt = 100, createdAt = Some 100, position = None,
         main = None, variants = None, video = None, preview = None, sizeText = None,
         themeData = Some []\<rparr>]\<rparr>"

section \<open>The identifier normalizer\<close>

lemma prefix_single: "prefix [c] xs \<longleftrightarrow> (xs \<noteq> [] \<and> hd xs = c)"
  by (cases xs) auto

lemma suffix_single: "suffix [c] xs \<longleftrightarrow> (xs \<noteq> [] \<and> last xs = c)"
  by (cases xs rule: rev_cases) auto

lemma drop_end_Cons: "\<not> P y \<Longrightarrow> drop_end P (y # ys) = y # drop_end P ys"
proof -
  assume n: "\<not> P y"
  have "dropWhile P (rev ys @ y # []) = dropWhile P (rev ys) @ y # []"
    using n by (rule dropWhile_append3)
  then show ?thesis by (simp add: drop_end_def)
qed

lemma hd_drop_end: "xs \<noteq> [] \<Longrightarrow> \<not> P (hd xs) \<Longrightarrow> hd (drop_end P xs) = hd xs"
  by (cases xs) (simp_all add: drop_end_Cons)

lemma last_drop_end: "drop_end P xs \<noteq> [] \<Longrightarrow> \<not> P (last (drop_end P xs))"
  unfolding drop_end_def by (simp add: last_rev hd_dropWhile)

lemma drop_end_Nil_iff: "drop_end P xs = [] \<longleftrightarrow> dropWhile P (rev xs) = []"
  by (simp add: drop_end_def)

lemma strip_hd: 
  assumes "strip_underscores s \<noteq> []"
  shows "hd (strip_underscores s) \<noteq> CHR ''_''"
proof -
  let ?P = "\<lambda>c. c = CHR ''_''"
  let ?m = "dropWhile ?P s"
  have mne: "?m \<noteq> []"
  proof
    assume "?m = []"
    then have "strip_underscores s = []"
      by (simp only: strip_underscores_def drop_end_def rev.simps dropWhile.simps)
    with assms show False by contradiction
  qed
  then have n: "\<not> ?P (hd ?m)" by (rule hd_dropWhile)
  have "hd (drop_end ?P ?m) = hd ?m" using mne n by (rule hd_drop_end)
  then have "hd (strip_underscores s) = hd ?m" by (simp only: strip_underscores_def)
  with n show ?thesis by metis
qed

lemma strip_last:
  assumes "strip_underscores s \<noteq> []"
  shows "last (strip_underscores s) \<noteq> CHR ''_''"
  using assms unfolding strip_underscores_def by (rule last_drop_end)

lemma set_drop_end: "set (drop_end P xs) \<subseteq> set xs"
  unfolding drop_end_def using set_dropWhileD by fastforce

lemma drop_end_id: "xs = [] \<or> \<not> P (last xs) \<Longrightarrow> drop_end P xs = xs"
  by (cases xs rule: rev_cases) (auto simp: drop_end_def)

lemma allowed_us: "allowed (CHR ''_'')"
  by (simp add: allowed_def code_def)

lemma allowed_replace_runs: "list_all allowed (replace_runs s)"
  by (induction s rule: replace_runs.induct) (simp_all add: allowed_us)

lemma replace_runs_id: "list_all allowed u \<Longrightarrow> replace_runs u = u"
  by (induction u) auto

lemma upper_unit_allowed: "allowed c \<Longrightarrow> upper_unit c = [c]"
  unfolding allowed_def upper_unit_def by auto

lemma toUpperCase_id: "list_all allowed u \<Longrightarrow> toUpperCase u = u"
  by (induction u) (auto simp: toUpperCase_def upper_unit_allowed)

lemma allowed_not_space: "allowed c \<Longrightarrow> \<not> is_space c"
  unfolding allowed_def is_space_def by auto

lemma trim_id: "list_all allowed u \<Longrightarrow> trim u = u"
proof -
  assume a: "list_all allowed u"
  have 1: "dropWhile is_space u = u"
    using a by (cases u) (auto simp: allowed_not_space)
  have 2: "drop_end is_space u = u"
    using a by (intro drop_end_id) (cases u rule: rev_cases, auto simp: allowed_not_space)
  show ?thesis by (simp add: trim_def 1 2)
qed

lemma strip_id:
  assumes a: "u = [] \<or> hd u \<noteq> CHR ''_''" and b: "u = [] \<or> last u \<noteq> CHR ''_''"
  shows "strip_underscores u = u"
proof -
  have 1: "dropWhile (\<lambda>c. c = CHR ''_'') u = u"
    using a by (cases u) auto
  have 2: "drop_end (\<lambda>c. c = CHR ''_'') u = u"
    using b by (rule drop_end_id)
  show ?thesis by (simp only: strip_underscores_def 1 2)
qed

lemma set_strip: "set (strip_underscores u) \<subseteq> set u"
proof
  fix x assume "x \<in> set (strip_underscores u)"
  then have "x \<in> set (dropWhile (\<lambda>c. c = CHR ''_'') u)"
    unfolding strip_underscores_def by (rule subsetD[OF set_drop_end])
  then show "x \<in> set u" by (rule set_dropWhileD)
qed

lemma allowed_strip: "list_all allowed u \<Longrightarrow> list_all allowed (strip_underscores u)"
  using set_strip[of u] unfolding list_all_iff by blast

lemma allowed_slug: "list_all allowed (slug s)"
  unfolding slug_def by (intro allowed_strip allowed_replace_runs)

lemma slug_fixed:
  assumes "list_all allowed u" "u = [] \<or> hd u \<noteq> CHR ''_''" "u = [] \<or> last u \<noteq> CHR ''_''"
  shows "slug u = u"
  using assms by (simp only: slug_def trim_id toUpperCase_id replace_runs_id strip_id)

lemma replace_runs_append:
  "a = [] \<or> allowed (last a) \<Longrightarrow> replace_runs (a @ b) = replace_runs a @ replace_runs b"
proof (induction a rule: replace_runs.induct)
  case 1
  then show ?case by simp
next
  case (2 c cs)
  show ?case
  proof (cases "allowed c")
    case True
    have "cs = [] \<or> allowed (last cs)" using 2(3) by (cases cs) auto
    then have "replace_runs (cs @ b) = replace_runs cs @ replace_runs b"
      by (rule 2(1)[OF True])
    then show ?thesis using True by simp
  next
    case False
    with 2(3) have ne: "cs \<noteq> []" and l: "allowed (last cs)" by (auto split: if_splits)
    then have m: "last cs \<in> set cs" by simp
    let ?P = "\<lambda>d. \<not> allowed d"
    let ?d = "dropWhile ?P cs"
    from m l have np: "\<not> ?P (last cs)" by simp
    have ld: "last ?d = last cs"
      using m np by (rule dropWhile_last)
    have app: "dropWhile ?P (cs @ b) = ?d @ b"
      using m np by (rule dropWhile_append1)
    have "replace_runs (?d @ b) = replace_runs ?d @ replace_runs b"
      by (rule 2(2)[OF False]) (simp add: ld l)
    then show ?thesis using False by (simp only: replace_runs.simps app if_False append_Cons)
  qed
qed

lemma replace_runs_run:
  "r \<noteq> [] \<Longrightarrow> list_all (\<lambda>c. \<not> allowed c) r \<Longrightarrow> b = [] \<or> allowed (hd b) \<Longrightarrow>
   replace_runs (r @ b) = CHR ''_'' # replace_runs b"
proof -
  assume r: "r \<noteq> []" and a: "list_all (\<lambda>c. \<not> allowed c) r" and b: "b = [] \<or> allowed (hd b)"
  from r obtain c r' where rr: "r = c # r'" by (cases r) auto
  have "dropWhile (\<lambda>d. \<not> allowed d) (r' @ b) = dropWhile (\<lambda>d. \<not> allowed d) b"
    using a rr by (intro dropWhile_append2) (auto simp: list_all_iff)
  also have "\<dots> = b" using b by (cases b) auto
  finally show ?thesis using a rr by simp
qed

text \<open>
  Claim C5. For every input string \<open>s\<close> the normalizer is idempotent, its output holds
  only code units of \<^verbatim>\<open>[A-Z0-9_]\<close>, and the output neither starts nor ends with an
  underscore. Every maximal run of code units outside the class in the uppercased input
  is replaced by a single underscore: when the uppercased input splits as \<open>a @ r @ b\<close>
  with \<open>r\<close> such a run (not empty, every code unit outside the class, bordered on both
  sides by the end of the string or a code unit of the class), the output is that of
  \<open>a\<close>, one underscore and that of \<open>b\<close>, with the outer underscores stripped.
\<close>

theorem slug_normalizer:
  "slug (slug s) = slug s \<and>
   list_all allowed (slug s) \<and>
   \<not> prefix ''_'' (slug s) \<and>
   \<not> suffix ''_'' (slug s) \<and>
   (toUpperCase (trim s) = a @ r @ b \<and> (a = [] \<or> allowed (last a)) \<and> r \<noteq> [] \<and>
    list_all (\<lambda>c. \<not> allowed c) r \<and> (b = [] \<or> allowed (hd b)) \<longrightarrow>
    slug s = strip_underscores (replace_runs a @ ''_'' @ replace_runs b))"
proof -
  have al: "list_all allowed (slug s)"
    by (rule allowed_slug)
  have hd_ok: "slug s = [] \<or> hd (slug s) \<noteq> CHR ''_''"
    unfolding slug_def using strip_hd by blast
  have last_ok: "slug s = [] \<or> last (slug s) \<noteq> CHR ''_''"
    unfolding slug_def using strip_last by blast
  have idem: "slug (slug s) = slug s"
    using al hd_ok last_ok by (rule slug_fixed)
  have np: "\<not> prefix ''_'' (slug s)"
    using hd_ok by (simp only: prefix_single) blast
  have ns: "\<not> suffix ''_'' (slug s)"
    using last_ok by (simp only: suffix_single) blast
  have runs: "slug s = strip_underscores (replace_runs a @ ''_'' @ replace_runs b)"
    if u: "toUpperCase (trim s) = a @ r @ b" and a: "a = [] \<or> allowed (last a)"
      and r: "r \<noteq> []" "list_all (\<lambda>c. \<not> allowed c) r" and b: "b = [] \<or> allowed (hd b)"
  proof -
    have "replace_runs (a @ r @ b) = replace_runs a @ replace_runs (r @ b)"
      using a by (rule replace_runs_append)
    also have "replace_runs (r @ b) = CHR ''_'' # replace_runs b"
      using r b by (rule replace_runs_run)
    finally show ?thesis by (simp add: slug_def u)
  qed
  from idem al np ns runs show ?thesis by blast
qed

theorem slug_normalizer_witness:
  "toUpperCase (trim ''blue  marble'') = ''BLUE'' @ ''  '' @ ''MARBLE'' \<and>
   allowed (last ''BLUE'') \<and> list_all (\<lambda>c. \<not> allowed c) ''  '' \<and> allowed (hd ''MARBLE'') \<and>
   slug ''blue  marble'' = strip_underscores (replace_runs ''BLUE'' @ ''_'' @ replace_runs ''MARBLE'') \<and>
   slug ''blue  marble'' = ''BLUE_MARBLE'' \<and>
   slug (slug ''blue  marble'') = slug ''blue  marble''"
proof -
  have u: "toUpperCase (trim ''blue  marble'') = ''BLUE'' @ ''  '' @ ''MARBLE''"
    by code_simp
  have a: "allowed (last ''BLUE'')" by code_simp
  have r: "list_all (\<lambda>c. \<not> allowed c) ''  ''" by code_simp
  have b: "allowed (hd ''MARBLE'')" by code_simp
  have v: "slug ''blue  marble'' = ''BLUE_MARBLE''" by code_simp
  have "''  '' \<noteq> ([] :: string)" by simp
  with u a r b v slug_normalizer [of "''blue  marble''" "''BLUE''" "''  ''" "''MARBLE''"]
  show ?thesis by blast
qed

section \<open>Facts about the upload route\<close>

lemma default_payload_Inr:
  assumes "default_payload b g now idn fresh = Inr p"
  shows "design_id p = idn \<and> theme p = ''default'' \<and> label p = label_of b idn \<and>
         finish p = req_finish b \<and> faces p = faces_of b \<and> updatedAt p = now \<and>
         createdAt p = (if fresh then Some now else None) \<and> position p = None \<and>
         themeData p = None \<and> sizeText p = map_of (req_data b) ''size_text'' \<and>
         main p = map_option (\<lambda>m. tiles_rel idn (basename (path m))) (first_file g ''main'') \<and>
         variants p =
           (if rename_variants idn 2 (variant_files g) = [] then None
            else Some (map (tiles_rel idn) (map snd (rename_variants idn 2 (variant_files g))))) \<and>
         video p = map_option (\<lambda>v. ''../AXOLI/DATA/VIDEO/'' @ idn @ ''.mp4'') (first_file g ''video'')"
  using assms unfolding default_payload_def Let_def
  by (simp split: if_splits) auto


lemma findIndex_None: "findIndex k ds = None \<longleftrightarrow> k \<notin> set (map design_id ds)"
  by (induction ds) auto

lemma findIndex_Some:
  "findIndex k ds = Some i \<Longrightarrow> i < length ds \<and> design_id (ds ! i) = k"
proof (induction ds arbitrary: i)
  case Nil
  then show ?case by simp
next
  case (Cons d ds)
  show ?case
  proof (cases "design_id d = k")
    case True
    with Cons.prems show ?thesis by simp
  next
    case False
    with Cons.prems obtain j where j: "findIndex k ds = Some j" and i: "i = Suc j"
      by auto
    from Cons.IH[OF j] i show ?thesis by simp
  qed
qed


lemma spread_id: "design_id (spread old p) = design_id p"
  by (simp add: spread_def)

lemma upsert_ids:
  assumes "design_id p = k"
  shows "map design_id (upsert ds (findIndex k ds) p) =
           (if k \<in> set (map design_id ds) then map design_id ds else map design_id ds @ [k])"
proof (cases "findIndex k ds")
  case None
  then have "k \<notin> set (map design_id ds)" by (simp add: findIndex_None)
  with None assms show ?thesis by (simp add: upsert_def)
next
  case (Some i)
  from findIndex_Some[OF Some] have i: "i < length ds" "design_id (ds ! i) = k" by simp_all
  then have "k \<in> set (map design_id ds)" by (metis length_map nth_map nth_mem)
  moreover have "map design_id (ds[i := spread (ds ! i) p]) = map design_id ds"
    using i assms by (simp add: map_update spread_id list_update_same_conv)
  ultimately show ?thesis using Some by (simp add: upsert_def)
qed

lemma default_payload_id:
  "default_payload b g now idn fresh = Inr p \<Longrightarrow> design_id p = idn"
  by (rule conjunct1[OF default_payload_Inr])

lemma theme_payload_id: "design_id (theme_payload b g now idn tn old) = idn"
  by (simp add: theme_payload_def)

lemma request_payload_id:
  "request_payload d b files now = Inr p \<Longrightarrow> design_id p = slug (req_id b)"
  unfolding request_payload_def Let_def
  by (simp split: if_splits add: default_payload_id) (use theme_payload_id in blast)

lemma request_payload_designs:
  "designs d1 = designs d2 \<Longrightarrow> request_payload d1 b files now = request_payload d2 b files now"
  unfolding request_payload_def Let_def by simp

lemma upload_success:
  assumes "upload d b files now = (Catalogue d', d')"
  shows "slug (req_id b) \<noteq> [] \<and>
         (\<exists>p. request_payload d b files now = Inr p \<and>
              designs d' = upsert (designs d) (findIndex (slug (req_id b)) (designs d)) p)"
proof -
  let ?data = "d\<lparr>brandLogo := (if brandLogo d = [] then ''../AXOLI/DATA/logo.svg'' else brandLogo d),
                  sizeIcon := (if sizeIcon d = [] then ''../AXOLI/DATA/size.svg'' else sizeIcon d)\<rparr>"
  have eq: "request_payload ?data b files now = request_payload d b files now"
    by (rule request_payload_designs) simp
  from assms show ?thesis
    unfolding upload_def Let_def eq
    by (auto split: if_splits sum.splits)
qed

lemma upload_ids:
  assumes "upload d b files now = (Catalogue d', d')"
  shows "map design_id (designs d') =
           (if slug (req_id b) \<in> set (map design_id (designs d)) then map design_id (designs d)
            else map design_id (designs d) @ [slug (req_id b)])"
proof -
  from upload_success[OF assms] obtain p where
    p: "request_payload d b files now = Inr p" and
    d': "designs d' = upsert (designs d) (findIndex (slug (req_id b)) (designs d)) p"
    by blast
  from request_payload_id[OF p] have "design_id p = slug (req_id b)" .
  from upsert_ids[OF this] d' show ?thesis by simp
qed


lemma find_upsert:
  assumes "design_id p = k"
  shows "find (\<lambda>r. design_id r = k) (upsert ds (findIndex k ds) p) =
           Some (case findIndex k ds of None \<Rightarrow> p | Some i \<Rightarrow> spread (ds ! i) p)"
proof (induction ds)
  case Nil
  show ?case using assms by (simp add: upsert_def)
next
  case (Cons d ds)
  show ?case
  proof (cases "design_id d = k")
    case True
    then show ?thesis using assms by (simp add: upsert_def spread_id)
  next
    case False
    show ?thesis
    proof (cases "findIndex k ds")
      case None
      with Cons False show ?thesis by (simp add: upsert_def)
    next
      case (Some j)
      with Cons False show ?thesis by (simp add: upsert_def)
    qed
  qed
qed

lemma upload_record:
  assumes "upload d b files now = (Catalogue d', d')"
  shows "\<exists>p. request_payload d b files now = Inr p \<and>
             find (\<lambda>r. design_id r = slug (req_id b)) (designs d') =
               Some (case findIndex (slug (req_id b)) (designs d) of
                       None \<Rightarrow> p | Some i \<Rightarrow> spread (designs d ! i) p)"
proof -
  from upload_success[OF assms] obtain p where
    p: "request_payload d b files now = Inr p" and
    d': "designs d' = upsert (designs d) (findIndex (slug (req_id b)) (designs d)) p"
    by blast
  from request_payload_id[OF p] have "design_id p = slug (req_id b)" .
  from find_upsert[OF this, of "designs d"] d' p show ?thesis by simp
qed

lemma upload_keeps_ids_distinct:
  assumes "upload d b files now = (Catalogue d', d')"
    and "distinct (map design_id (designs d))"
  shows "distinct (map design_id (designs d'))"
  using assms(2) unfolding upload_ids[OF assms(1)] by simp

lemma delete_keeps_ids_distinct:
  "distinct (map design_id (designs d)) \<Longrightarrow>
   distinct (map design_id (designs (snd (delete_design d raw))))"
  by (simp add: delete_design_def Let_def distinct_map_filter)

section \<open>The variant counter\<close>





section \<open>Delete\<close>

text \<open>
  Claim C10. The delete route normalizes its path parameter with \<open>slug\<close>, the function
  the upload route normalizes the id with. A parameter that normalizes to the empty
  string is answered with 400 and the store stays as it was. A parameter whose
  normalization is the id of a stored record deletes every record of that id and
  answers \<open>removed = true\<close>; so it deletes the record that an upload has made, whatever
  the case, spacing or punctuation of the two raw ids, as long as both normalize to the
  same id.
\<close>

theorem delete_normalizes_id:
  "(slug raw0 = [] \<longrightarrow> delete_design d raw0 = (Error 400 ''Missing id'', d)) \<and>
   (r \<in> set (designs d) \<and> design_id r \<noteq> [] \<and> slug raw = design_id r \<longrightarrow>
      delete_design d raw =
        (Deleted (filter (\<lambda>x. design_id x \<noteq> design_id r) (designs d)) True,
         d\<lparr>designs := filter (\<lambda>x. design_id x \<noteq> design_id r) (designs d)\<rparr>) \<and>
      r \<notin> set (filter (\<lambda>x. design_id x \<noteq> design_id r) (designs d))) \<and>
   (upload d b files now = (Catalogue d1, d1) \<and> slug raw1 = slug (req_id b) \<longrightarrow>
      fst (delete_design d1 raw1) =
        Deleted (filter (\<lambda>x. design_id x \<noteq> slug (req_id b)) (designs d1)) True \<and>
      slug (req_id b) \<in> set (map design_id (designs d1)) \<and>
      slug (req_id b) \<notin> set (map design_id (designs (snd (delete_design d1 raw1)))))"
proof (intro conjI impI)
  assume "slug raw0 = []"
  then show "delete_design d raw0 = (Error 400 ''Missing id'', d)"
    by (simp add: delete_design_def Let_def)
next
  assume a: "r \<in> set (designs d) \<and> design_id r \<noteq> [] \<and> slug raw = design_id r"
  then have ex: "list_ex (\<lambda>x. design_id x = design_id r) (designs d)"
    unfolding list_ex_iff by blast
  from a ex show "delete_design d raw =
        (Deleted (filter (\<lambda>x. design_id x \<noteq> design_id r) (designs d)) True,
         d\<lparr>designs := filter (\<lambda>x. design_id x \<noteq> design_id r) (designs d)\<rparr>)"
    by (simp add: delete_design_def Let_def)
next
  show "r \<notin> set (filter (\<lambda>x. design_id x \<noteq> design_id r) (designs d))"
    by simp
next
  assume a: "upload d b files now = (Catalogue d1, d1) \<and> slug raw1 = slug (req_id b)"
  then have up: "upload d b files now = (Catalogue d1, d1)" and s: "slug raw1 = slug (req_id b)"
    by simp_all
  from upload_success[OF up] have ne: "slug (req_id b) \<noteq> []" by simp
  have mem: "slug (req_id b) \<in> set (map design_id (designs d1))"
    using upload_ids[OF up] by (simp split: if_splits)
  then have ex: "list_ex (\<lambda>x. design_id x = slug (req_id b)) (designs d1)"
    unfolding list_ex_iff by auto
  show "slug (req_id b) \<in> set (map design_id (designs d1))" by (rule mem)
  show "fst (delete_design d1 raw1) =
        Deleted (filter (\<lambda>x. design_id x \<noteq> slug (req_id b)) (designs d1)) True"
    using ne s ex by (simp add: delete_design_def Let_def)
  show "slug (req_id b) \<notin> set (map design_id (designs (snd (delete_design d1 raw1))))"
    using ne s by (auto simp: delete_design_def Let_def)
qed

theorem delete_normalizes_id_witness:
  "delete_design two_tiles '' - '' = (Error 400 ''Missing id'', two_tiles) \<and>
   delete_design two_tiles '' a! '' =
     (Deleted (filter (\<lambda>x. design_id x \<noteq> design_id (hd (designs two_tiles))) (designs two_tiles)) True,
      two_tiles\<lparr>designs := filter (\<lambda>x. design_id x \<noteq> design_id (hd (designs two_tiles))) (designs two_tiles)\<rparr>) \<and>
   slug (req_id (fields_of ''Blue Marble'' []))
     \<notin> set (map design_id (designs (snd (delete_design
            (snd (upload two_tiles (fields_of ''Blue Marble'' []) [] 300)) ''blue-marble''))))"
proof -
  have h1: "slug '' - '' = []" by code_simp
  have h2: "hd (designs two_tiles) \<in> set (designs two_tiles)" by code_simp
  have h3: "design_id (hd (designs two_tiles)) \<noteq> []" by code_simp
  have h4: "slug '' a! '' = design_id (hd (designs two_tiles))" by code_simp
  have h5: "upload two_tiles (fields_of ''Blue Marble'' []) [] 300 =
      (Catalogue (snd (upload two_tiles (fields_of ''Blue Marble'' []) [] 300)),
       snd (upload two_tiles (fields_of ''Blue Marble'' []) [] 300))"
    by code_simp
  have h6: "slug ''blue-marble'' = slug (req_id (fields_of ''Blue Marble'' []))" by code_simp
  from delete_normalizes_id [where ?raw0.0 = "'' - ''" and d = two_tiles
      and r = "hd (designs two_tiles)" and raw = "'' a! ''"
      and b = "fields_of ''Blue Marble'' []" and files = "[]" and now = 300
      and ?d1.0 = "snd (upload two_tiles (fields_of ''Blue Marble'' []) [] 300)"
      and ?raw1.0 = "''blue-marble''"]
    h1 h2 h3 h4 h5 h6
  show ?thesis by blast
qed

section \<open>Display order\<close>

lemma compare_le_iff:
  "compare_designs a b \<le> 0 \<longleftrightarrow>
     position_key a < position_key b \<or>
     (position_key a = position_key b \<and> created_key a \<le> created_key b)"
  unfolding compare_designs_def Let_def by auto

lemma compare_total: "compare_designs a b \<le> 0 \<or> compare_designs b a \<le> 0"
  unfolding compare_le_iff by linarith

lemma compare_trans:
  "compare_designs a b \<le> 0 \<Longrightarrow> compare_designs b c \<le> 0 \<Longrightarrow> compare_designs a c \<le> 0"
  unfolding compare_le_iff by linarith

lemma set_insert_design: "set (insert_design x ys) = insert x (set ys)"
  by (induction ys) auto

lemma mset_insert_design: "mset (insert_design x ys) = add_mset x (mset ys)"
  by (induction ys) auto

lemma sorted_insert_design:
  "position_sorted ys \<Longrightarrow> position_sorted (insert_design x ys)"
proof (induction ys)
  case Nil
  show ?case by (simp add: position_sorted_def)
next
  case (Cons y ys)
  show ?case
  proof (cases "compare_designs x y \<le> 0")
    case True
    have "\<forall>z \<in> set ys. compare_designs x z \<le> 0"
      using Cons.prems True compare_trans unfolding position_sorted_def by auto
    with True Cons.prems show ?thesis by (simp add: position_sorted_def)
  next
    case False
    then have yx: "compare_designs y x \<le> 0" using compare_total[of x y] by simp
    from Cons have "position_sorted (insert_design x ys)" by (simp add: position_sorted_def)
    with yx Cons.prems False show ?thesis
      by (simp add: position_sorted_def set_insert_design)
  qed
qed

lemma mset_js_sort: "mset (js_sort ds) = mset ds"
  by (induction ds) (simp_all add: js_sort_def mset_insert_design)

lemma set_js_sort: "set (js_sort ds) = set ds"
  using mset_js_sort[of ds] by (metis set_mset_mset)

lemma sorted_js_sort: "position_sorted (js_sort ds)"
proof (induction ds)
  case Nil
  show ?case by (simp add: js_sort_def position_sorted_def)
next
  case (Cons d ds)
  then show ?case using sorted_insert_design[of "js_sort ds" d] by (simp add: js_sort_def)
qed

lemma js_sort_sorted: "position_sorted ds \<Longrightarrow> js_sort ds = ds"
proof (induction ds)
  case Nil
  show ?case by (simp add: js_sort_def)
next
  case (Cons d ds)
  then have IH: "js_sort ds = ds" by (simp add: position_sorted_def)
  have "insert_design d ds = d # ds"
    using Cons.prems by (cases ds) (simp_all add: position_sorted_def)
  with IH show ?case by (simp add: js_sort_def)
qed

lemma spec_before_of_compare:
  assumes "compare_designs a b \<le> 0"
    and "\<forall>p. position a = Some p \<longrightarrow> p < 1000000000000"
    and "\<forall>p. position b = Some p \<longrightarrow> p < 1000000000000"
  shows "spec_before a b"
  using assms unfolding compare_le_iff spec_before_def position_key_def
  by (auto split: option.splits)

text \<open>
  Claim C7, as the code has it. \<^verbatim>\<open>GET /api/designs\<close> returns the stored designs, each
  once, sorted by ascending position with a missing position counted as \<open>10^12\<close>, ties
  broken by ascending \<^verbatim>\<open>createdAt\<close> (a missing one counted as 0). When every position in
  the store is below \<open>10^12\<close>, that is the order of the specification, where a missing
  position is \<open>+\<infinity>\<close>.
\<close>

theorem get_designs_sorted:
  "get_designs d = Catalogue (d\<lparr>designs := js_sort (designs d)\<rparr>) \<and>
   mset (js_sort (designs d)) = mset (designs d) \<and>
   sorted_wrt (\<lambda>a b. position_key a < position_key b \<or>
                   (position_key a = position_key b \<and> created_key a \<le> created_key b))
     (js_sort (designs d)) \<and>
   ((\<forall>a \<in> set (designs d). \<forall>p. position a = Some p \<longrightarrow> p < 1000000000000) \<longrightarrow>
    sorted_wrt spec_before (js_sort (designs d)))"
proof (intro conjI impI)
  show "get_designs d = Catalogue (d\<lparr>designs := js_sort (designs d)\<rparr>)"
    by (simp add: get_designs_def)
  show "mset (js_sort (designs d)) = mset (designs d)"
    by (rule mset_js_sort)
  have s: "sorted_wrt (\<lambda>a b. compare_designs a b \<le> 0) (js_sort (designs d))"
    using sorted_js_sort[of "designs d"] by (simp only: position_sorted_def)
  then show "sorted_wrt (\<lambda>a b. position_key a < position_key b \<or>
                   (position_key a = position_key b \<and> created_key a \<le> created_key b))
     (js_sort (designs d))"
    by (simp only: compare_le_iff)
  assume bound: "\<forall>a \<in> set (designs d). \<forall>p. position a = Some p \<longrightarrow> p < 1000000000000"
  show "sorted_wrt spec_before (js_sort (designs d))"
  proof (rule sorted_wrt_mono_rel[OF _ s])
    fix a b
    assume "a \<in> set (js_sort (designs d))" "b \<in> set (js_sort (designs d))"
      and c: "compare_designs a b \<le> 0"
    then have "a \<in> set (designs d)" "b \<in> set (designs d)"
      by (simp_all only: set_js_sort)
    with bound have "\<forall>p. position a = Some p \<longrightarrow> p < 1000000000000"
      "\<forall>p. position b = Some p \<longrightarrow> p < 1000000000000" by blast+
    with c show "spec_before a b" by (rule spec_before_of_compare)
  qed
qed

theorem get_designs_sorted_witness:
  "sorted_wrt spec_before (js_sort (designs four_tiles)) \<and>
   mset (js_sort (designs four_tiles)) = mset (designs four_tiles) \<and>
   get_designs four_tiles = Catalogue four_tiles"
proof -
  have b: "\<forall>a \<in> set (designs four_tiles). \<forall>p. position a = Some p \<longrightarrow> p < 1000000000000"
    by (simp add: four_tiles_def seeded_def tile_def)
  have s: "js_sort (designs four_tiles) = designs four_tiles"
    by (simp add: js_sort_def compare_designs_def position_key_def created_key_def
        four_tiles_def seeded_def tile_def)
  have g: "get_designs four_tiles = Catalogue four_tiles"
    by (simp add: get_designs_def s)
  from get_designs_sorted [of four_tiles] b g show ?thesis by blast
qed

text \<open>
  Claim C7, as stated, fails on a position beyond the sentinel: a record with position
  \<open>2 * 10^12\<close> is returned after a record without a position.
\<close>

theorem get_designs_sentinel_counterexample:
  "get_designs (seeded\<lparr>designs := [far_tile, new_tile]\<rparr>) =
     Catalogue (seeded\<lparr>designs := [new_tile, far_tile]\<rparr>) \<and>
   position new_tile = None \<and> position far_tile = Some 2000000000000 \<and>
   \<not> spec_before new_tile far_tile"
  by (simp add: get_designs_def js_sort_def compare_designs_def position_key_def created_key_def
      spec_before_def far_tile_def new_tile_def seeded_def)

section \<open>Upserting twice\<close>

lemma map_of_spread_obj: "map_of (spread_obj a b) = map_of a ++ map_of (rev b)"
proof (induction b arbitrary: a)
  case Nil
  show ?case by (simp add: spread_obj_def)
next
  case (Cons e b)
  have step: "spread_obj a (e # b) = spread_obj (AList.update (fst e) (snd e) a) b"
    by (simp add: spread_obj_def)
  have upd: "map_of (AList.update (fst e) (snd e) a) = (map_of a)(fst e \<mapsto> snd e)"
    by (rule update_conv')
  have "map_of (spread_obj a (e # b)) = map_of (spread_obj (AList.update (fst e) (snd e) a) b)"
    by (simp only: step)
  also have "\<dots> = map_of (AList.update (fst e) (snd e) a) ++ map_of (rev b)"
    by (rule Cons)
  also have "\<dots> = (map_of a)(fst e \<mapsto> snd e) ++ map_of (rev b)"
    by (simp only: upd)
  also have "\<dots> = (map_of a ++ map_of [e]) ++ map_of (rev b)"
  proof -
    have "map_of [e] = Map.empty(fst e \<mapsto> snd e)" by (cases e) simp
    then have "map_of a ++ map_of [e] = (map_of a)(fst e \<mapsto> snd e)" by simp
    then show ?thesis by (simp only:)
  qed
  also have "\<dots> = map_of a ++ (map_of [e] ++ map_of (rev b))"
    by (rule map_add_assoc[symmetric])
  also have "\<dots> = map_of a ++ map_of (rev (e # b))"
    by (simp only: rev.simps map_of_append)
  finally show ?case .
qed

lemma map_of_rev_distinct:
  assumes "distinct (map fst xs)"
  shows "map_of (rev xs) = map_of xs"
proof (rule ext)
  fix k
  have d: "distinct (map fst (rev xs))" using assms by (simp add: rev_map[symmetric])
  show "map_of (rev xs) k = map_of xs k"
  proof (cases "map_of xs k")
    case None
    then have "k \<notin> fst ` set xs" by (simp add: map_of_eq_None_iff)
    then have "map_of (rev xs) k = None" by (simp add: map_of_eq_None_iff)
    with None show ?thesis by simp
  next
    case (Some v)
    then have "(k, v) \<in> set (rev xs)" using map_of_SomeD by fastforce
    with d have "map_of (rev xs) k = Some v" by (rule map_of_is_SomeI)
    with Some show ?thesis by simp
  qed
qed

lemma distinct_obj_set: "distinct (map fst obj) \<Longrightarrow> distinct (map fst (obj_set k v obj))"
  by (simp add: obj_set_def distinct_update)

lemma distinct_file_entries:
  "distinct (map fst td) \<Longrightarrow> distinct (map fst (file_entries idn es td))"
  by (induction idn es td rule: file_entries.induct) (simp_all add: distinct_obj_set)

lemma distinct_data_fields:
  "distinct (map fst td) \<Longrightarrow>
   distinct (map fst (foldl (\<lambda>td e. obj_set (fst e) (Single (snd e)) td) td xs))"
  by (induction xs arbitrary: td) (simp_all add: distinct_obj_set)

lemma distinct_request_themeData: "distinct (map fst (request_themeData b g idn))"
  unfolding request_themeData_def
  by (rule distinct_file_entries, rule distinct_data_fields) simp


lemma request_payload_theme:
  assumes "req_theme b \<noteq> []" and "req_theme b \<noteq> ''default''"
  shows "request_payload d b files now =
     Inr (theme_payload b (filesByField files) now (slug (req_id b)) (req_theme b)
            (map_option (\<lambda>i. designs d ! i) (findIndex (slug (req_id b)) (designs d))))"
  using assms unfolding request_payload_def Let_def by simp



section \<open>File fields of the other themes\<close>

lemma map_of_push_file:
  "map_of (push_file x g) k =
     (if k = fieldname x then Some ((case map_of g k of None \<Rightarrow> [] | Some fs \<Rightarrow> fs) @ [x])
      else map_of g k)"
  by (induction g) auto

lemma keys_push_file: "fst ` set (push_file x g) = insert (fieldname x) (fst ` set g)"
proof (induction g)
  case Nil
  show ?case by simp
next
  case (Cons e g)
  obtain k fs where e: "e = (k, fs)" by (cases e)
  show ?case using Cons e by (cases "k = fieldname x") (simp_all add: insert_commute)
qed

lemma distinct_push_file: "distinct (map fst g) \<Longrightarrow> distinct (map fst (push_file x g))"
proof (induction g)
  case Nil
  show ?case by simp
next
  case (Cons e g)
  obtain k fs where e: "e = (k, fs)" by (cases e)
  show ?case
  proof (cases "k = fieldname x")
    case True
    with Cons.prems e show ?thesis by simp
  next
    case False
    from Cons have "distinct (map fst (push_file x g))" by simp
    moreover have "k \<notin> fst ` set (push_file x g)"
      using Cons.prems e False by (simp add: keys_push_file)
    ultimately show ?thesis using e False by simp
  qed
qed

lemma map_of_group:
  "map_of (foldl (\<lambda>g x. push_file x g) acc files) k =
     (if filter (\<lambda>x. fieldname x = k) files = [] then map_of acc k
      else Some ((case map_of acc k of None \<Rightarrow> [] | Some fs \<Rightarrow> fs) @
                 filter (\<lambda>x. fieldname x = k) files))"
proof (induction files arbitrary: acc)
  case Nil
  show ?case by simp
next
  case (Cons x files)
  show ?case
    unfolding foldl.simps Cons[of "push_file x acc"]
    by (simp add: map_of_push_file)
qed

lemma distinct_group:
  "distinct (map fst acc) \<Longrightarrow> distinct (map fst (foldl (\<lambda>g x. push_file x g) acc files))"
  by (induction files arbitrary: acc) (simp_all add: distinct_push_file)

lemma map_of_filesByField:
  "map_of (filesByField files) k =
     (if filter (\<lambda>x. fieldname x = k) files = [] then None
      else Some (filter (\<lambda>x. fieldname x = k) files))"
  unfolding filesByField_def map_of_group by simp

lemma distinct_filesByField: "distinct (map fst (filesByField files))"
  unfolding filesByField_def by (rule distinct_group) simp

lemma set_object_entries: "set (object_entries g) = set g"
  unfolding object_entries_def by auto

lemma distinct_object_entries:
  assumes "distinct (map fst g)"
  shows "distinct (map fst (object_entries g))"
proof -
  let ?A = "filter (\<lambda>e. is_array_index (fst e)) g"
  let ?B = "filter (\<lambda>e. \<not> is_array_index (fst e)) g"
  let ?h = "\<lambda>e. digits_value (fst e)"
  from assms have dg: "distinct g" and inj: "inj_on fst (set g)"
    by (simp_all add: distinct_map)
  have "distinct (sort_key ?h ?A @ ?B)"
    using dg by (auto simp: distinct_sort)
  moreover have "inj_on fst (set (sort_key ?h ?A @ ?B))"
    using inj by (rule inj_on_subset) auto
  ultimately show ?thesis
    unfolding object_entries_def by (simp only: distinct_map)
qed

lemma map_of_obj_set:
  "map_of (obj_set k' v td) k =
     (if k' = k \<and> k' \<noteq> ''__proto__'' then Some v else map_of td k)"
  by (simp add: obj_set_def update_conv')

lemma file_entries_untouched:
  "(\<forall>e \<in> set es. fst e \<notin> set reserved_fields \<and> snd e \<noteq> [] \<longrightarrow> cleanFieldName (fst e) \<noteq> k) \<Longrightarrow>
   map_of (file_entries idn es td) k = map_of td k"
proof (induction idn es td rule: file_entries.induct)
  case (1 idn td)
  show ?case by simp
next
  case (2 idn field arr es td)
  show ?case
  proof (cases "field \<in> set reserved_fields \<or> arr = []")
    case True
    with 2 show ?thesis by auto
  next
    case False
    with 2(4) have ne: "cleanFieldName field \<noteq> k" by simp
    from False 2(3) 2(4)
    have "map_of (file_entries idn ((field, arr) # es) td) k =
          map_of (obj_set (cleanFieldName field)
                   (if length arr = 1 then Single (asset_rel idn (hd arr))
                    else Many (map (asset_rel idn) arr)) td) k"
      by simp
    with ne show ?thesis by (simp add: map_of_obj_set)
  qed
qed

lemma file_entries_lookup:
  assumes "distinct (map fst es)" and "(f, arr) \<in> set es"
    and "f \<notin> set reserved_fields" and "arr \<noteq> []"
    and "cleanFieldName f \<noteq> ''__proto__''"
    and "\<forall>e \<in> set es. fst e \<notin> set reserved_fields \<and> cleanFieldName (fst e) = cleanFieldName f
           \<longrightarrow> fst e = f"
  shows "map_of (file_entries idn es td) (cleanFieldName f) =
           Some (if length arr = 1 then Single (asset_rel idn (hd arr))
                 else Many (map (asset_rel idn) arr))"
  using assms
proof (induction es arbitrary: td)
  case Nil
  then show ?case by simp
next
  case (Cons e es)
  obtain g a where e: "e = (g, a)" by (cases e)
  let ?v = "if length arr = 1 then Single (asset_rel idn (hd arr))
            else Many (map (asset_rel idn) arr)"
  show ?case
  proof (cases "e = (f, arr)")
    case True
    have rest: "\<forall>x \<in> set es. fst x \<notin> set reserved_fields \<and> snd x \<noteq> []
                  \<longrightarrow> cleanFieldName (fst x) \<noteq> cleanFieldName f"
    proof (intro ballI impI)
      fix x assume x: "x \<in> set es" and r: "fst x \<notin> set reserved_fields \<and> snd x \<noteq> []"
      show "cleanFieldName (fst x) \<noteq> cleanFieldName f"
      proof
        assume "cleanFieldName (fst x) = cleanFieldName f"
        with Cons.prems(6) x r have "fst x = f" by simp
        with x have "f \<in> fst ` set es" by force
        with Cons.prems(1) True show False by simp
      qed
    qed
    have "map_of (file_entries idn (e # es) td) (cleanFieldName f) =
          map_of (file_entries idn es (obj_set (cleanFieldName f) ?v td)) (cleanFieldName f)"
      using True Cons.prems(3,4) by simp
    also have "\<dots> = map_of (obj_set (cleanFieldName f) ?v td) (cleanFieldName f)"
      using rest by (rule file_entries_untouched)
    also have "\<dots> = Some ?v"
      using Cons.prems(5) by (simp add: map_of_obj_set)
    finally show ?thesis .
  next
    case False
    with Cons.prems(2) have mem: "(f, arr) \<in> set es" by simp
    from Cons.prems(1) have d: "distinct (map fst es)" by simp
    from Cons.prems(6) have u: "\<forall>e \<in> set es. fst e \<notin> set reserved_fields \<and>
        cleanFieldName (fst e) = cleanFieldName f \<longrightarrow> fst e = f" by simp
    have IH: "map_of (file_entries idn es td') (cleanFieldName f) = Some ?v" for td'
      using d mem Cons.prems(3,4,5) u by (rule Cons.IH)
    show ?thesis
      unfolding e by (simp add: IH)
  qed
qed

lemma slash_code: "c = CHR ''/'' \<longleftrightarrow> code c = 47"
proof -
  have "(of_char (CHR ''/'') :: nat) = 47" by simp
  then show ?thesis
    unfolding code_def using of_char_eq_iff[of c "CHR ''/''", where ?'a = nat] by simp
qed

lemma code_char_of: "n < 256 \<Longrightarrow> code (char_of n) = n"
  by (simp add: code_def)

lemma code_less: "code c < 256"
proof -
  have "code c mod 256 = code c" unfolding code_def by (rule of_char_mod_256)
  then show ?thesis by (metis mod_less_divisor zero_less_numeral)
qed

lemma digit_not_slash: "d < 10 \<Longrightarrow> digit d \<noteq> CHR ''/''"
  by (simp add: slash_code digit_def code_char_of)

lemma show_nat_no_slash: "CHR ''/'' \<notin> set (show_nat n)"
proof (induction n rule: show_nat.induct)
  case (1 n)
  show ?case
  proof (cases "n < 10")
    case True
    then show ?thesis using digit_not_slash[of n] by (simp add: show_nat.simps[of n])
  next
    case False
    have "n mod 10 < 10" by simp
    then have "digit (n mod 10) \<noteq> CHR ''/''" by (rule digit_not_slash)
    with False 1 show ?thesis by (auto simp: show_nat.simps[of n])
  qed
qed

lemma lower_unit_slash: "lower_unit c = CHR ''/'' \<Longrightarrow> c = CHR ''/''"
proof -
  assume a: "lower_unit c = CHR ''/''"
  have l: "code c < 256" by (rule code_less)
  show ?thesis
  proof (cases "(65 \<le> code c \<and> code c \<le> 90) \<or> (192 \<le> code c \<and> code c \<le> 222 \<and> code c \<noteq> 215)")
    case True
    then have "lower_unit c = char_of (code c + 32)" by (auto simp: lower_unit_def)
    moreover have "code (char_of (code c + 32)) = code c + 32"
      using True by (intro code_char_of) auto
    ultimately have "code (lower_unit c) = code c + 32" by simp
    with a True show ?thesis by (simp add: slash_code)
  next
    case False
    then have "lower_unit c = c" by (auto simp: lower_unit_def)
    with a show ?thesis by simp
  qed
qed

lemma toLowerCase_no_slash: "CHR ''/'' \<notin> set s \<Longrightarrow> CHR ''/'' \<notin> set (toLowerCase s)"
proof
  assume n: "CHR ''/'' \<notin> set s" and "CHR ''/'' \<in> set (toLowerCase s)"
  then obtain x where x: "x \<in> set s" "lower_unit x = CHR ''/''"
    unfolding toLowerCase_def by auto
  from lower_unit_slash[OF x(2)] x(1) n show False by simp
qed

lemma last_component_no_slash: "CHR ''/'' \<notin> set (last_component p)"
  unfolding last_component_def using set_takeWhileD by fastforce

lemma extname_no_slash: "CHR ''/'' \<notin> set (extname p)"
proof -
  let ?b = "last_component p"
  have "set (rev (takeWhile (\<lambda>c. c \<noteq> CHR ''.'') (rev ?b))) \<subseteq> set ?b"
    using set_takeWhileD by fastforce
  with last_component_no_slash[of p]
  have "CHR ''/'' \<notin> set (rev (takeWhile (\<lambda>c. c \<noteq> CHR ''.'') (rev ?b)))" by blast
  then show ?thesis unfolding extname_def Let_def by simp
qed

lemma basename_join:
  assumes "CHR ''/'' \<notin> set name" and "name \<noteq> []"
  shows "basename (dir @ ''/'' @ name) = name"
proof -
  let ?p = "dir @ ''/'' @ name"
  have "last ?p = last name" using assms(2) by simp
  moreover have "last name \<noteq> CHR ''/''" using assms by (metis last_in_set)
  ultimately have "?p = [] \<or> \<not> (last ?p = CHR ''/'')" by simp
  then have d: "drop_end (\<lambda>c. c = CHR ''/'') ?p = ?p" by (rule drop_end_id)
  have "takeWhile (\<lambda>c. c \<noteq> CHR ''/'') (rev name @ CHR ''/'' # rev dir) =
        rev name @ takeWhile (\<lambda>c. c \<noteq> CHR ''/'') (CHR ''/'' # rev dir)"
    using assms(1) by (intro takeWhile_append2) auto
  then have "takeWhile (\<lambda>c. c \<noteq> CHR ''/'') (rev ?p) = rev name" by simp
  then show ?thesis unfolding basename_def last_component_def d by simp
qed

lemma asset_rel_multer:
  assumes "tn \<noteq> ''default''" and "CHR ''/'' \<notin> set tag"
  shows "asset_rel idn (multer_file tn idn tag original stamp) =
           ''../AXOLI/DATA/ASSETS/'' @ idn @ ''/'' @
           tag @ ''_'' @ show_nat stamp @ toLowerCase (extname original)"
proof -
  let ?name = "tag @ ''_'' @ show_nat stamp @ toLowerCase (extname original)"
  have n: "multer_filename tn idn tag original stamp = ?name"
    using assms(1) by (simp add: multer_filename_def)
  have "CHR ''/'' \<notin> set ?name"
    using assms(2) show_nat_no_slash[of stamp] toLowerCase_no_slash[OF extname_no_slash[of original]]
    by simp
  moreover have "?name \<noteq> []" by simp
  ultimately have "basename (multer_destination tn idn tag @ ''/'' @ ?name) = ?name"
    by (rule basename_join)
  then show ?thesis by (simp add: asset_rel_def multer_file_def n)
qed

lemma request_themeData_file:
  assumes "f \<in> fieldname ` set files" and "f \<notin> set reserved_fields"
    and "cleanFieldName f \<noteq> ''__proto__''"
    and "\<forall>x \<in> set files. fieldname x \<notin> set reserved_fields \<and>
           cleanFieldName (fieldname x) = cleanFieldName f \<longrightarrow> fieldname x = f"
  shows "map_of (request_themeData b (filesByField files) idn) (cleanFieldName f) =
           Some (if length (filter (\<lambda>x. fieldname x = f) files) = 1
                 then Single (asset_rel idn (hd (filter (\<lambda>x. fieldname x = f) files)))
                 else Many (map (asset_rel idn) (filter (\<lambda>x. fieldname x = f) files)))"
proof -
  let ?G = "filesByField files"
  let ?arr = "filter (\<lambda>x. fieldname x = f) files"
  have ne: "?arr \<noteq> []" using assms(1) by (auto simp: filter_empty_conv)
  then have "map_of ?G f = Some ?arr" by (simp add: map_of_filesByField)
  then have mem: "(f, ?arr) \<in> set (object_entries ?G)"
    unfolding set_object_entries by (rule map_of_SomeD)
  have d: "distinct (map fst (object_entries ?G))"
    using distinct_filesByField by (rule distinct_object_entries)
  have u: "\<forall>e \<in> set (object_entries ?G). fst e \<notin> set reserved_fields \<and>
             cleanFieldName (fst e) = cleanFieldName f \<longrightarrow> fst e = f"
  proof (intro ballI impI)
    fix e assume e: "e \<in> set (object_entries ?G)"
      and c: "fst e \<notin> set reserved_fields \<and> cleanFieldName (fst e) = cleanFieldName f"
    from e have "(fst e, snd e) \<in> set ?G" by (simp add: set_object_entries)
    with distinct_filesByField have "map_of ?G (fst e) = Some (snd e)"
      by (rule map_of_is_SomeI)
    then have "filter (\<lambda>x. fieldname x = fst e) files \<noteq> []"
      by (simp add: map_of_filesByField split: if_splits)
    then obtain x where x: "x \<in> set files" "fieldname x = fst e"
      by (auto simp: filter_empty_conv)
    from assms(4) x(1) have "fieldname x \<notin> set reserved_fields \<and>
        cleanFieldName (fieldname x) = cleanFieldName f \<longrightarrow> fieldname x = f" by (rule bspec)
    with c x(2) show "fst e = f" by simp
  qed
  show ?thesis
    unfolding request_themeData_def
    using d mem assms(2) ne assms(3) u by (rule file_entries_lookup)
qed

text \<open>
  Claim C8, as the code has it by design. In a successful upload under another theme
  than the default, a file field contributes an entry to the \<^verbatim>\<open>themeData\<close> of the stored
  record when its tag is none of \<^verbatim>\<open>main\<close>, \<^verbatim>\<open>variants\<close>, \<^verbatim>\<open>variants[]\<close>, \<^verbatim>\<open>video\<close>, \<^verbatim>\<open>preview\<close>,
  its cleaned tag is not \<^verbatim>\<open>__proto__\<close>, and no other uploaded field has the same cleaned
  tag: the key is the cleaned tag, the value the asset path of the file when the field
  has one file and the array of the asset paths when it has several. For a file that
  multer stored and a tag without a slash, the asset path is
  \<^verbatim>\<open>../AXOLI/DATA/ASSETS/<id>/<tag>_<stamp><ext>\<close>, with the raw tag and the lower-cased
  extension of the client's file name, dot included.
\<close>

theorem theme_upload_file_fields:
  "(upload d b files now = (Catalogue d', d') \<and>
    req_theme b \<noteq> [] \<and> req_theme b \<noteq> ''default'' \<and>
    f \<in> fieldname ` set files \<and> f \<notin> set reserved_fields \<and>
    cleanFieldName f \<noteq> ''__proto__'' \<and>
    (\<forall>x \<in> set files. fieldname x \<notin> set reserved_fields \<and>
        cleanFieldName (fieldname x) = cleanFieldName f \<longrightarrow> fieldname x = f) \<longrightarrow>
    (\<exists>r td. find (\<lambda>r. design_id r = slug (req_id b)) (designs d') = Some r \<and>
        themeData r = Some td \<and>
        map_of td (cleanFieldName f) =
          Some (if length (filter (\<lambda>x. fieldname x = f) files) = 1
                then Single (asset_rel (slug (req_id b)) (hd (filter (\<lambda>x. fieldname x = f) files)))
                else Many (map (asset_rel (slug (req_id b))) (filter (\<lambda>x. fieldname x = f) files))))) \<and>
   (tn \<noteq> ''default'' \<and> CHR ''/'' \<notin> set tag \<longrightarrow>
      asset_rel idn (multer_file tn idn tag original stamp) =
        ''../AXOLI/DATA/ASSETS/'' @ idn @ ''/'' @
        tag @ ''_'' @ show_nat stamp @ toLowerCase (extname original))"
proof (intro conjI impI)
  let ?k = "slug (req_id b)"
  let ?new = "request_themeData b (filesByField files) ?k"
  let ?v = "if length (filter (\<lambda>x. fieldname x = f) files) = 1
            then Single (asset_rel ?k (hd (filter (\<lambda>x. fieldname x = f) files)))
            else Many (map (asset_rel ?k) (filter (\<lambda>x. fieldname x = f) files))"
  assume a: "upload d b files now = (Catalogue d', d') \<and>
    req_theme b \<noteq> [] \<and> req_theme b \<noteq> ''default'' \<and>
    f \<in> fieldname ` set files \<and> f \<notin> set reserved_fields \<and>
    cleanFieldName f \<noteq> ''__proto__'' \<and>
    (\<forall>x \<in> set files. fieldname x \<notin> set reserved_fields \<and>
        cleanFieldName (fieldname x) = cleanFieldName f \<longrightarrow> fieldname x = f)"
  then have up: "upload d b files now = (Catalogue d', d')"
    and th: "req_theme b \<noteq> []" "req_theme b \<noteq> ''default''"
    and f: "f \<in> fieldname ` set files" "f \<notin> set reserved_fields"
           "cleanFieldName f \<noteq> ''__proto__''"
    and u: "\<forall>x \<in> set files. fieldname x \<notin> set reserved_fields \<and>
        cleanFieldName (fieldname x) = cleanFieldName f \<longrightarrow> fieldname x = f"
    by blast+
  let ?old = "map_option (\<lambda>i. designs d ! i) (findIndex ?k (designs d))"
  let ?p = "theme_payload b (filesByField files) now ?k (req_theme b) ?old"
  from upload_record[OF up] request_payload_theme[OF th, of d files now]
  have fnd: "find (\<lambda>r. design_id r = ?k) (designs d') =
          Some (case findIndex ?k (designs d) of None \<Rightarrow> ?p | Some i \<Rightarrow> spread (designs d ! i) ?p)"
    by simp
  obtain old where td: "themeData ?p = Some (spread_obj old ?new)"
    by (simp add: theme_payload_def)
  have "themeData (case findIndex ?k (designs d) of None \<Rightarrow> ?p | Some i \<Rightarrow> spread (designs d ! i) ?p)
          = Some (spread_obj old ?new)"
    using td by (cases "findIndex ?k (designs d)") (simp_all add: spread_def or_else_def)
  moreover have "map_of (spread_obj old ?new) (cleanFieldName f) = Some ?v"
  proof -
    have "map_of ?new (cleanFieldName f) = Some ?v"
      using f u by (rule request_themeData_file)
    then show ?thesis
      by (simp add: map_of_spread_obj map_of_rev_distinct[OF distinct_request_themeData])
  qed
  ultimately show "\<exists>r td. find (\<lambda>r. design_id r = ?k) (designs d') = Some r \<and>
        themeData r = Some td \<and> map_of td (cleanFieldName f) = Some ?v"
    using fnd by blast
next
  assume "tn \<noteq> ''default'' \<and> CHR ''/'' \<notin> set tag"
  then show "asset_rel idn (multer_file tn idn tag original stamp) =
        ''../AXOLI/DATA/ASSETS/'' @ idn @ ''/'' @
        tag @ ''_'' @ show_nat stamp @ toLowerCase (extname original)"
    using asset_rel_multer by blast
qed

theorem theme_upload_file_fields_witness:
  "(\<exists>r td. find (\<lambda>r. design_id r = slug (req_id (fields_of ''tile1'' ''neo''))) (designs hero_store) = Some r \<and>
        themeData r = Some td \<and>
        map_of td (cleanFieldName ''files[hero]'') =
          Some (if length (filter (\<lambda>x. fieldname x = ''files[hero]'') [hero_file]) = 1
                then Single (asset_rel (slug (req_id (fields_of ''tile1'' ''neo'')))
                       (hd (filter (\<lambda>x. fieldname x = ''files[hero]'') [hero_file])))
                else Many (map (asset_rel (slug (req_id (fields_of ''tile1'' ''neo''))))
                       (filter (\<lambda>x. fieldname x = ''files[hero]'') [hero_file])))) \<and>
   asset_rel ''TILE1'' (multer_file ''neo'' ''TILE1'' ''files[hero]'' ''h.PNG'' 7) =
     ''../AXOLI/DATA/ASSETS/'' @ ''TILE1'' @ ''/'' @
     ''files[hero]'' @ ''_'' @ show_nat 7 @ toLowerCase (extname ''h.PNG'') \<and>
   asset_rel ''TILE1'' hero_file = ''../AXOLI/DATA/ASSETS/TILE1/files[hero]_7.png'' \<and>
   cleanFieldName ''files[hero]'' = ''hero'' \<and>
   cleanFieldName ''files[gallery][]'' = ''gallery''"
proof -
  have h1: "upload seeded (fields_of ''tile1'' ''neo'') [hero_file] 100 = (Catalogue hero_store, hero_store)"
    by code_simp
  have h2: "req_theme (fields_of ''tile1'' ''neo'') \<noteq> []"
    and h3: "req_theme (fields_of ''tile1'' ''neo'') \<noteq> ''default''"
    by (simp_all add: fields_of_def)
  have h4: "''files[hero]'' \<in> fieldname ` set [hero_file]"
    by (simp add: hero_file_def multer_file_def)
  have h5: "''files[hero]'' \<notin> set reserved_fields"
    by (simp add: reserved_fields_def)
  have c1: "cleanFieldName ''files[hero]'' = ''hero''" by code_simp
  have c2: "cleanFieldName ''files[gallery][]'' = ''gallery''" by code_simp
  have h6: "cleanFieldName ''files[hero]'' \<noteq> ''__proto__''"
    unfolding c1 by simp
  have h7: "\<forall>x \<in> set [hero_file]. fieldname x \<notin> set reserved_fields \<and>
        cleanFieldName (fieldname x) = cleanFieldName ''files[hero]'' \<longrightarrow> fieldname x = ''files[hero]''"
    by (simp add: hero_file_def multer_file_def)
  have h8: "''neo'' \<noteq> ''default'' \<and> CHR ''/'' \<notin> set ''files[hero]''" by simp
  have v: "asset_rel ''TILE1'' hero_file = ''../AXOLI/DATA/ASSETS/TILE1/files[hero]_7.png''"
    by code_simp
  note T = theme_upload_file_fields [where d = seeded and b = "fields_of ''tile1'' ''neo''"
      and files = "[hero_file]" and now = 100 and d' = hero_store and f = "''files[hero]''"
      and tn = "''neo''" and tag = "''files[hero]''" and idn = "''TILE1''"
      and original = "''h.PNG''" and stamp = 7]
  have a: "\<exists>r td. find (\<lambda>r. design_id r = slug (req_id (fields_of ''tile1'' ''neo''))) (designs hero_store) = Some r \<and>
        themeData r = Some td \<and>
        map_of td (cleanFieldName ''files[hero]'') =
          Some (if length (filter (\<lambda>x. fieldname x = ''files[hero]'') [hero_file]) = 1
                then Single (asset_rel (slug (req_id (fields_of ''tile1'' ''neo'')))
                       (hd (filter (\<lambda>x. fieldname x = ''files[hero]'') [hero_file])))
                else Many (map (asset_rel (slug (req_id (fields_of ''tile1'' ''neo''))))
                       (filter (\<lambda>x. fieldname x = ''files[hero]'') [hero_file])))"
    using T[THEN conjunct1] h1 h2 h3 h4 h5 h6 h7 by blast
  have b: "asset_rel ''TILE1'' (multer_file ''neo'' ''TILE1'' ''files[hero]'' ''h.PNG'' 7) =
     ''../AXOLI/DATA/ASSETS/'' @ ''TILE1'' @ ''/'' @
     ''files[hero]'' @ ''_'' @ show_nat 7 @ toLowerCase (extname ''h.PNG'')"
    using T[THEN conjunct2] h8 by (rule mp)
  from a b v c1 c2 show ?thesis by (intro conjI)
qed

text \<open>
  Claim C8, as stated, fails on the field tag \<^verbatim>\<open>main\<close>: under the theme \<^verbatim>\<open>neo\<close> a file
  uploaded in that field is stored by multer, and the record gets an empty
  \<^verbatim>\<open>themeData\<close>; the loop skips the five tags of the default theme.
\<close>

theorem theme_upload_reserved_tag_counterexample:
  "upload seeded (fields_of ''t'' ''neo'') [multer_file ''neo'' ''T'' ''main'' ''m.png'' 7] 100 =
     (Catalogue main_only_store, main_only_store) \<and>
   map themeData (designs main_only_store) = [Some []]"
proof (rule conjI)
  show "upload seeded (fields_of ''t'' ''neo'') [multer_file ''neo'' ''T'' ''main'' ''m.png'' 7] 100 =
     (Catalogue main_only_store, main_only_store)"
    by code_simp
  show "map themeData (designs main_only_store) = [Some []]"
    by (simp add: main_only_store_def seeded_def)
qed

section \<open>Reorder: the guard on the order\<close>

text \<open>
  Claim C9. An order that is not an array, or an empty array, is answered with 400 and
  the designs in the store stay as they were; so is the empty order against a catalogue
  without designs.
\<close>

theorem put_order_needs_nonempty_array:
  "(order_in = None \<or> order_in = Some [] \<longrightarrow>
      put_order d tn order_in =
        (Error 400 ''Provide 'order' as a non-empty array of IDs.'', map Some (designs d))) \<and>
   put_order (d\<lparr>designs := []\<rparr>) tn (Some []) =
     (Error 400 ''Provide 'order' as a non-empty array of IDs.'', [])"
  by (auto simp: put_order_def)

theorem put_order_needs_nonempty_array_witness:
  "put_order two_tiles ''all'' (Some []) =
     (Error 400 ''Provide 'order' as a non-empty array of IDs.'', map Some (designs two_tiles)) \<and>
   put_order (two_tiles\<lparr>designs := []\<rparr>) ''all'' (Some []) =
     (Error 400 ''Provide 'order' as a non-empty array of IDs.'', [])"
  using put_order_needs_nonempty_array [of "Some []" two_tiles "''all''"] by blast

section \<open>Reorder with scope all\<close>

lemma byId_of_Some: "byId_of ds k = Some r \<Longrightarrow> r \<in> set ds \<and> design_id r = k"
proof -
  assume "byId_of ds k = Some r"
  then have "(k, r) \<in> set (rev (map (\<lambda>d. (design_id d, d)) ds))"
    unfolding byId_of_def by (rule map_of_SomeD)
  then show ?thesis by auto
qed

lemma byId_of_defined:
  assumes "k \<in> set (map design_id ds)"
  shows "\<exists>r \<in> set ds. design_id r = k \<and> byId_of ds k = Some r"
proof -
  from assms have "k \<in> fst ` set (rev (map (\<lambda>d. (design_id d, d)) ds))"
    by force
  then obtain r where r: "byId_of ds k = Some r"
    unfolding byId_of_def by (metis map_of_eq_None_iff not_None_eq)
  with byId_of_Some[OF r] show ?thesis by blast
qed

lemma assign_positions_other:
  "Some k \<notin> set ids \<Longrightarrow> assign_positions m i ids k = m k"
proof (induction ids arbitrary: m i)
  case Nil
  show ?case by simp
next
  case (Cons a ids)
  show ?case
  proof (cases a)
    case None
    with Cons show ?thesis by simp
  next
    case (Some k')
    with Cons.prems have ne: "k' \<noteq> k" and rest: "Some k \<notin> set ids" by auto
    show ?thesis
    proof (cases "m k'")
      case None
      have "assign_positions m i (a # ids) k = assign_positions m (i + 1) ids k"
        using None \<open>a = Some k'\<close> by simp
      also have "\<dots> = m k" by (rule Cons.IH[OF rest])
      finally show ?thesis .
    next
      case (Some d)
      let ?m = "m(k' \<mapsto> d\<lparr>position := Some (int i + 1)\<rparr>)"
      have "assign_positions m i (a # ids) k = assign_positions ?m (i + 1) ids k"
        using Some \<open>a = Some k'\<close> by simp
      also have "\<dots> = ?m k" by (rule Cons.IH[OF rest])
      also have "\<dots> = m k" using ne by simp
      finally show ?thesis .
    qed
  qed
qed

lemma assign_positions_nth:
  "distinct ks \<Longrightarrow> j < length ks \<Longrightarrow> m (ks ! j) = Some r \<Longrightarrow>
   assign_positions m i (map Some ks) (ks ! j) = Some (r\<lparr>position := Some (int (i + j) + 1)\<rparr>)"
proof (induction ks arbitrary: m i j)
  case Nil
  then show ?case by simp
next
  case (Cons k ks)
  from Cons.prems(1) have d: "distinct ks" and nk: "k \<notin> set ks" by simp_all
  show ?case
  proof (cases j)
    case 0
    with Cons.prems have mk: "m k = Some r" by simp
    have "Some k \<notin> set (map Some ks)" using nk by auto
    from assign_positions_other[OF this] mk 0 show ?thesis by simp
  next
    case (Suc j')
    with Cons.prems have j': "j' < length ks" and mj: "m (ks ! j') = Some r" by simp_all
    from j' nk have ne: "ks ! j' \<noteq> k" by (metis nth_mem)
    show ?thesis
    proof (cases "m k")
      case None
      have "assign_positions m (i + 1) (map Some ks) (ks ! j')
              = Some (r\<lparr>position := Some (int (i + 1 + j') + 1)\<rparr>)"
        using d j' mj by (rule Cons.IH)
      with None Suc show ?thesis by simp
    next
      case (Some dk)
      let ?m = "m(k \<mapsto> dk\<lparr>position := Some (int i + 1)\<rparr>)"
      from ne mj have "?m (ks ! j') = Some r" by simp
      with d j' have "assign_positions ?m (i + 1) (map Some ks) (ks ! j')
              = Some (r\<lparr>position := Some (int (i + 1 + j') + 1)\<rparr>)"
        by (rule Cons.IH)
      with Some Suc show ?thesis by simp
    qed
  qed
qed

lemma length_reordered: "length (reordered ds ns) = length ns"
  by (simp add: reordered_def Let_def)

lemma reordered_nth:
  assumes "distinct ks" and "set ks \<subseteq> set (map design_id ds)" and "j < length ks"
  shows "\<exists>r \<in> set ds. design_id r = ks ! j \<and>
           reordered ds (map Some ks) ! j = Some (r\<lparr>position := Some (int j + 1)\<rparr>)"
proof -
  from assms(2,3) have "ks ! j \<in> set (map design_id ds)" by (meson nth_mem subsetD)
  from byId_of_defined[OF this] obtain r where
    r: "r \<in> set ds" "design_id r = ks ! j" "byId_of ds (ks ! j) = Some r" by blast
  have "assign_positions (byId_of ds) 0 (map Some ks) (ks ! j)
          = Some (r\<lparr>position := Some (int (0 + j) + 1)\<rparr>)"
    using assms(1) assms(3) r(3) by (rule assign_positions_nth)
  then have "assign_positions (byId_of ds) 0 (map Some ks) (ks ! j)
          = Some (r\<lparr>position := Some (int j + 1)\<rparr>)" by simp
  then have "reordered ds (map Some ks) ! j = Some (r\<lparr>position := Some (int j + 1)\<rparr>)"
    using assms(3) by (simp add: reordered_def Let_def)
  with r show ?thesis by blast
qed

lemma ids_js_sort: "set (map design_id (js_sort ds)) = set (map design_id ds)"
  by (simp add: set_js_sort)

lemma length_js_sort: "length (js_sort ds) = length ds"
  using mset_js_sort[of ds] by (metis size_mset)

lemma reordered_position_sorted:
  assumes "distinct ks" and "set ks \<subseteq> set (map design_id ds)"
  shows "position_sorted (map the (reordered ds (map Some ks)))"
  unfolding position_sorted_def sorted_wrt_iff_nth_less
proof (intro allI impI)
  fix i j
  assume ij: "i < j" and "j < length (map the (reordered ds (map Some ks)))"
  then have j: "j < length ks" and i: "i < length ks" by (simp_all add: length_reordered)
  from reordered_nth[OF assms i] obtain a where
    a: "reordered ds (map Some ks) ! i = Some (a\<lparr>position := Some (int i + 1)\<rparr>)" by blast
  from reordered_nth[OF assms j] obtain b where
    b: "reordered ds (map Some ks) ! j = Some (b\<lparr>position := Some (int j + 1)\<rparr>)" by blast
  have "compare_designs (a\<lparr>position := Some (int i + 1)\<rparr>) (b\<lparr>position := Some (int j + 1)\<rparr>) \<le> 0"
    using ij by (simp add: compare_le_iff position_key_def)
  with a b i j show "compare_designs (map the (reordered ds (map Some ks)) ! i)
      (map the (reordered ds (map Some ks)) ! j) \<le> 0"
    by (simp add: length_reordered)
qed

lemma reordered_ids:
  assumes "distinct ks" and "set ks \<subseteq> set (map design_id ds)"
  shows "map design_id (map the (reordered ds (map Some ks))) = ks"
proof (rule nth_equalityI)
  show "length (map design_id (map the (reordered ds (map Some ks)))) = length ks"
    by (simp add: length_reordered)
next
  fix j
  assume "j < length (map design_id (map the (reordered ds (map Some ks))))"
  then have j: "j < length ks" by (simp add: length_reordered)
  from reordered_nth[OF assms j] obtain r where
    "design_id r = ks ! j"
    "reordered ds (map Some ks) ! j = Some (r\<lparr>position := Some (int j + 1)\<rparr>)" by blast
  with j show "map design_id (map the (reordered ds (map Some ks))) ! j = ks ! j"
    by (simp add: length_reordered)
qed

text \<open>
  Claim C2, as the code has it by design. With scope \<^verbatim>\<open>all\<close> (or no theme) the empty
  sequence is always answered with 400. A sequence that is not empty and has no
  duplicate succeeds if and only if its ids are exactly the current ids; then the
  stored array is the records in the supplied order, with positions 1, 2, ..., so that
  sorting by position gives the supplied order back. Otherwise the answer is 400 and
  the designs in the store stay as they were.
\<close>

theorem reorder_all_permutation:
  assumes "tn = [] \<or> tn = ''all''"
  shows
  "put_order d tn (Some []) =
     (Error 400 ''Provide 'order' as a non-empty array of IDs.'', map Some (designs d)) \<and>
   (ord \<noteq> [] \<and> distinct ord \<and> set ord = set (map design_id (designs d)) \<longrightarrow>
      (\<exists>w. put_order d tn (Some ord) = (Ordered w, w) \<and> length w = length ord \<and>
           (\<forall>j < length ord. \<exists>r \<in> set (designs d).
               design_id r = ord ! j \<and> w ! j = Some (r\<lparr>position := Some (int j + 1)\<rparr>)) \<and>
           map design_id (js_sort (map the w)) = ord)) \<and>
   (bad \<noteq> [] \<and> distinct bad \<and> set bad \<noteq> set (map design_id (designs d)) \<longrightarrow>
      put_order d tn (Some bad) =
        (Error 400 ''Global reorder must include all existing design IDs.'', map Some (designs d)))"
proof (intro conjI impI)
  show "put_order d tn (Some []) =
     (Error 400 ''Provide 'order' as a non-empty array of IDs.'', map Some (designs d))"
    by (simp add: put_order_def)
next
  let ?ids = "map design_id (js_sort (designs d))"
  assume a: "ord \<noteq> [] \<and> distinct ord \<and> set ord = set (map design_id (designs d))"
  then have ne: "ord \<noteq> []" and di: "distinct ord"
    and se: "set ord = set (map design_id (designs d))" by simp_all
  have ids: "set ?ids = set ord" using se by (simp only: ids_js_sort)
  have len: "length ord = length (remdups ?ids)"
    using di ids by (metis distinct_card length_remdups_card_conv)
  have nex: "\<not> list_ex (\<lambda>k. k \<notin> set ?ids) ord"
    using ids by (simp add: list_ex_iff)
  let ?w = "reordered (designs d) (map Some ord)"
  have put: "put_order d tn (Some ord) = (Ordered ?w, ?w)"
    using assms ne len nex unfolding put_order_def Let_def by auto
  have sub: "set ord \<subseteq> set (map design_id (designs d))" using se by simp
  have nth: "\<forall>j < length ord. \<exists>r \<in> set (designs d).
               design_id r = ord ! j \<and> ?w ! j = Some (r\<lparr>position := Some (int j + 1)\<rparr>)"
    using reordered_nth[OF di sub] by blast
  have "js_sort (map the ?w) = map the ?w"
    using reordered_position_sorted[OF di sub] by (rule js_sort_sorted)
  then have srt: "map design_id (js_sort (map the ?w)) = ord"
    using reordered_ids[OF di sub] by simp
  from put nth srt
  show "\<exists>w. put_order d tn (Some ord) = (Ordered w, w) \<and> length w = length ord \<and>
           (\<forall>j < length ord. \<exists>r \<in> set (designs d).
               design_id r = ord ! j \<and> w ! j = Some (r\<lparr>position := Some (int j + 1)\<rparr>)) \<and>
           map design_id (js_sort (map the w)) = ord"
    using length_reordered[of "designs d" "map Some ord"] by (intro exI[of _ ?w]) simp
next
  let ?ids = "map design_id (js_sort (designs d))"
  assume a: "bad \<noteq> [] \<and> distinct bad \<and> set bad \<noteq> set (map design_id (designs d))"
  then have ne: "bad \<noteq> []" and di: "distinct bad"
    and se: "set bad \<noteq> set ?ids" by (simp_all add: set_js_sort)
  have "length bad \<noteq> length (remdups ?ids) \<or> list_ex (\<lambda>k. k \<notin> set ?ids) bad"
  proof (cases "set bad \<subseteq> set ?ids")
    case True
    with se have "set bad \<subset> set ?ids" by blast
    then have "card (set bad) < card (set ?ids)" by (simp add: psubset_card_mono)
    then have "length bad < length (remdups ?ids)"
      using di by (simp add: distinct_card length_remdups_card_conv)
    then show ?thesis by simp
  next
    case False
    then show ?thesis by (auto simp: list_ex_iff)
  qed
  then show "put_order d tn (Some bad) =
        (Error 400 ''Global reorder must include all existing design IDs.'', map Some (designs d))"
    using assms ne unfolding put_order_def Let_def by auto
qed

theorem reorder_all_permutation_witness:
  "(\<exists>w. put_order two_tiles ''all'' (Some [''B'', ''A'']) = (Ordered w, w) \<and>
        length w = length [''B'', ''A''] \<and>
        (\<forall>j < length [''B'', ''A'']. \<exists>r \<in> set (designs two_tiles).
            design_id r = [''B'', ''A''] ! j \<and> w ! j = Some (r\<lparr>position := Some (int j + 1)\<rparr>)) \<and>
        map design_id (js_sort (map the w)) = [''B'', ''A'']) \<and>
   put_order two_tiles ''all'' (Some [''B'', ''C'']) =
     (Error 400 ''Global reorder must include all existing design IDs.'', map Some (designs two_tiles))"
proof -
  have t: "''all'' = [] \<or> ''all'' = ''all''" by simp
  have ids: "map design_id (designs two_tiles) = [''A'', ''B'']"
    by (simp add: two_tiles_def seeded_def tile_def)
  have g: "[''B'', ''A''] \<noteq> [] \<and> distinct [''B'', ''A''] \<and>
           set [''B'', ''A''] = set (map design_id (designs two_tiles))"
    unfolding ids by code_simp
  have b: "[''B'', ''C''] \<noteq> [] \<and> distinct [''B'', ''C''] \<and>
           set [''B'', ''C''] \<noteq> set (map design_id (designs two_tiles))"
    unfolding ids by code_simp
  note T = reorder_all_permutation [OF t, of two_tiles "[''B'', ''A'']" "[''B'', ''C'']"]
  show ?thesis
  proof (rule conjI)
    show "\<exists>w. put_order two_tiles ''all'' (Some [''B'', ''A'']) = (Ordered w, w) \<and>
        length w = length [''B'', ''A''] \<and>
        (\<forall>j < length [''B'', ''A'']. \<exists>r \<in> set (designs two_tiles).
            design_id r = [''B'', ''A''] ! j \<and> w ! j = Some (r\<lparr>position := Some (int j + 1)\<rparr>)) \<and>
        map design_id (js_sort (map the w)) = [''B'', ''A'']"
      using T[THEN conjunct2, THEN conjunct1] g by (rule mp)
    show "put_order two_tiles ''all'' (Some [''B'', ''C'']) =
       (Error 400 ''Global reorder must include all existing design IDs.'', map Some (designs two_tiles))"
      using T[THEN conjunct2, THEN conjunct2] b by (rule mp)
  qed
qed

text \<open>
  Claim C2, as stated, fails on the catalogue without designs: the empty sequence is a
  permutation of its ids (there is none), and the answer is 400.
\<close>

theorem reorder_all_empty_counterexample:
  "distinct ([] :: string list) \<and>
   set ([] :: string list) = set (map design_id (designs seeded)) \<and>
   put_order seeded ''all'' (Some []) =
     (Error 400 ''Provide 'order' as a non-empty array of IDs.'', [])"
  by (simp add: put_order_def seeded_def)

text \<open>
  Claim C1 at its failing input. The store with the two records \<^verbatim>\<open>A\<close> and \<^verbatim>\<open>B\<close> is what
  two uploads leave. The order \<^verbatim>\<open>["A", "A"]\<close> with scope \<^verbatim>\<open>all\<close> has the right length and
  only known ids, so it passes the check; the stored array is then the record \<^verbatim>\<open>A\<close>
  twice, and \<^verbatim>\<open>B\<close> is gone.
\<close>

theorem reorder_all_duplicate_breaks_uniqueness:
  "snd (upload (snd (upload seeded (fields_of ''a'' []) [] 100)) (fields_of ''b'' []) [] 200)
     = two_tiles \<and>
   distinct (map design_id (designs two_tiles)) \<and>
   put_order two_tiles ''all'' (Some [''A'', ''A'']) =
     (Ordered [Some ((tile ''A'' 100)\<lparr>position := Some 2\<rparr>), Some ((tile ''A'' 100)\<lparr>position := Some 2\<rparr>)],
      [Some ((tile ''A'' 100)\<lparr>position := Some 2\<rparr>), Some ((tile ''A'' 100)\<lparr>position := Some 2\<rparr>)])"
proof (intro conjI)
  show "snd (upload (snd (upload seeded (fields_of ''a'' []) [] 100)) (fields_of ''b'' []) [] 200)
     = two_tiles"
    by code_simp
  show "distinct (map design_id (designs two_tiles))"
    by (simp add: two_tiles_def seeded_def tile_def)
  show "put_order two_tiles ''all'' (Some [''A'', ''A'']) =
     (Ordered [Some ((tile ''A'' 100)\<lparr>position := Some 2\<rparr>), Some ((tile ''A'' 100)\<lparr>position := Some 2\<rparr>)],
      [Some ((tile ''A'' 100)\<lparr>position := Some 2\<rparr>), Some ((tile ''A'' 100)\<lparr>position := Some 2\<rparr>)])"
    by code_simp
qed

theorem reorder_all_duplicate_breaks_uniqueness_witness:
  "\<not> distinct (map (map_option design_id) (snd (put_order two_tiles ''all'' (Some [''A'', ''A'']))))"
proof -
  have "put_order two_tiles ''all'' (Some [''A'', ''A'']) =
     (Ordered [Some ((tile ''A'' 100)\<lparr>position := Some 2\<rparr>), Some ((tile ''A'' 100)\<lparr>position := Some 2\<rparr>)],
      [Some ((tile ''A'' 100)\<lparr>position := Some 2\<rparr>), Some ((tile ''A'' 100)\<lparr>position := Some 2\<rparr>)])"
    using reorder_all_duplicate_breaks_uniqueness by (rule conjunct2[THEN conjunct2])
  then show ?thesis by simp
qed

section \<open>Reorder with a theme scope\<close>

lemma length_substitute: "length (substitute ord it cs) = length cs"
  by (induction cs arbitrary: it) (auto split: list.splits)

lemma substitute_ok:
  "set it \<subseteq> set ord \<Longrightarrow> length (filter (\<lambda>c. c \<in> set ord) cs) \<le> length it \<Longrightarrow>
   \<exists>ns. substitute ord it cs = map Some ns \<and> length ns = length cs \<and>
        (\<forall>i < length cs. cs ! i \<notin> set ord \<longrightarrow> ns ! i = cs ! i) \<and>
        filter (\<lambda>k. k \<in> set ord) ns = take (length (filter (\<lambda>c. c \<in> set ord) cs)) it \<and>
        filter (\<lambda>k. k \<notin> set ord) ns = filter (\<lambda>k. k \<notin> set ord) cs"
proof (induction cs arbitrary: it)
  case Nil
  show ?case by simp
next
  case (Cons c cs)
  show ?case
  proof (cases "c \<in> set ord")
    case True
    with Cons.prems(2) obtain x rest where it: "it = x # rest" by (cases it) auto
    with Cons.prems True have x: "x \<in> set ord" and r: "set rest \<subseteq> set ord"
      and l: "length (filter (\<lambda>c. c \<in> set ord) cs) \<le> length rest" by auto
    from Cons.IH[OF r l] obtain ns where
      ns: "substitute ord rest cs = map Some ns" "length ns = length cs"
          "\<forall>i < length cs. cs ! i \<notin> set ord \<longrightarrow> ns ! i = cs ! i"
          "filter (\<lambda>k. k \<in> set ord) ns = take (length (filter (\<lambda>c. c \<in> set ord) cs)) rest"
          "filter (\<lambda>k. k \<notin> set ord) ns = filter (\<lambda>k. k \<notin> set ord) cs"
      by blast
    have n: "\<forall>i < length (c # cs). (c # cs) ! i \<notin> set ord \<longrightarrow> (x # ns) ! i = (c # cs) ! i"
    proof (intro allI impI)
      fix i assume "i < length (c # cs)" "(c # cs) ! i \<notin> set ord"
      with True ns(3) show "(x # ns) ! i = (c # cs) ! i" by (cases i) auto
    qed
    show ?thesis
      using True it x ns(1,2,4,5) n by (intro exI[of _ "x # ns"]) simp
  next
    case False
    with Cons.prems have l: "length (filter (\<lambda>c. c \<in> set ord) cs) \<le> length it" by simp
    from Cons.IH[OF Cons.prems(1) l] obtain ns where
      ns: "substitute ord it cs = map Some ns" "length ns = length cs"
          "\<forall>i < length cs. cs ! i \<notin> set ord \<longrightarrow> ns ! i = cs ! i"
          "filter (\<lambda>k. k \<in> set ord) ns = take (length (filter (\<lambda>c. c \<in> set ord) cs)) it"
          "filter (\<lambda>k. k \<notin> set ord) ns = filter (\<lambda>k. k \<notin> set ord) cs"
      by blast
    have n: "\<forall>i < length (c # cs). (c # cs) ! i \<notin> set ord \<longrightarrow> (c # ns) ! i = (c # cs) ! i"
    proof (intro allI impI)
      fix i assume "i < length (c # cs)" "(c # cs) ! i \<notin> set ord"
      with ns(3) show "(c # ns) ! i = (c # cs) ! i" by (cases i) auto
    qed
    show ?thesis
      using False ns(1,2,4,5) n by (intro exI[of _ "c # ns"]) simp
  qed
qed

lemma members_length:
  assumes "distinct cs" "distinct ord" "set ord \<subseteq> set cs"
  shows "mset (filter (\<lambda>c. c \<in> set ord) cs) = mset ord"
proof -
  have d: "distinct (filter (\<lambda>c. c \<in> set ord) cs)" using assms(1) by simp
  have s: "set (filter (\<lambda>c. c \<in> set ord) cs) = set ord" using assms(3) by auto
  show ?thesis using set_eq_iff_mset_eq_distinct[OF d assms(2)] s by (rule iffD1)
qed

lemma substitute_permutes:
  assumes "distinct cs" "distinct ord" "set ord \<subseteq> set cs"
  shows "\<exists>ns. substitute ord ord cs = map Some ns \<and> length ns = length cs \<and>
        (\<forall>i < length cs. cs ! i \<notin> set ord \<longrightarrow> ns ! i = cs ! i) \<and>
        filter (\<lambda>k. k \<in> set ord) ns = ord \<and> mset ns = mset cs"
proof -
  let ?m = "\<lambda>c. c \<in> set ord"
  have len: "length (filter ?m cs) = length ord"
    using members_length[OF assms] by (metis size_mset)
  then have "length (filter ?m cs) \<le> length ord" by simp
  from substitute_ok[OF subset_refl this] len obtain ns where
    ns: "substitute ord ord cs = map Some ns" "length ns = length cs"
        "\<forall>i < length cs. cs ! i \<notin> set ord \<longrightarrow> ns ! i = cs ! i"
        "filter ?m ns = ord"
        "filter (\<lambda>k. k \<notin> set ord) ns = filter (\<lambda>k. k \<notin> set ord) cs"
    by auto
  have "mset ns = mset (filter ?m ns) + mset (filter (\<lambda>k. \<not> ?m k) ns)"
    by (simp only: mset_filter multiset_partition[symmetric])
  also have "\<dots> = mset (filter ?m cs) + mset (filter (\<lambda>k. \<not> ?m k) cs)"
    using ns(4,5) members_length[OF assms] by simp
  also have "\<dots> = mset cs"
    by (simp only: mset_filter multiset_partition[symmetric])
  finally have "mset ns = mset cs" .
  with ns show ?thesis by blast
qed

text \<open>
  Claim C3, as the code has it by design. Take a catalogue with unique ids whose designs
  are stored in display order, a theme scope, and a supplied sequence that is not
  empty, has no duplicate and only ids of the catalogue. Then the reorder succeeds and
  is a subsequence substitution: the stored array has the length of the catalogue;
  a slot whose design is not in the supplied set keeps that design; the slots of the
  designs in the supplied set hold, from left to right, the designs of the supplied
  sequence; and the record in slot \<open>i\<close> has position \<open>i + 1\<close>, its other fields untouched.
\<close>

theorem reorder_theme_substitution:
  assumes "tn \<noteq> []" and "tn \<noteq> ''all''"
    and "position_sorted (designs d)"
    and "distinct (map design_id (designs d))"
    and "ord \<noteq> []" and "distinct ord" and "set ord \<subseteq> set (map design_id (designs d))"
  shows "\<exists>w. put_order d tn (Some ord) = (Ordered w, w) \<and>
     length w = length (designs d) \<and>
     (\<forall>i < length (designs d). \<exists>r \<in> set (designs d).
         w ! i = Some (r\<lparr>position := Some (int i + 1)\<rparr>) \<and>
         (design_id (designs d ! i) \<notin> set ord \<longrightarrow> r = designs d ! i)) \<and>
     filter (\<lambda>k. k \<in> set ord) (map design_id (map the w)) = ord"
proof -
  let ?ds = "designs d"
  let ?cs = "map design_id ?ds"
  have srt: "js_sort ?ds = ?ds" using assms(3) by (rule js_sort_sorted)
  from substitute_permutes[OF assms(4) assms(6) assms(7)] obtain ns where
    ns: "substitute ord ord ?cs = map Some ns" "length ns = length ?cs"
        "\<forall>i < length ?cs. ?cs ! i \<notin> set ord \<longrightarrow> ns ! i = ?cs ! i"
        "filter (\<lambda>k. k \<in> set ord) ns = ord" "mset ns = mset ?cs"
    by blast
  let ?w = "reordered ?ds (map Some ns)"
  have dn: "distinct ns" using ns(5) assms(4) by (metis mset_eq_imp_distinct_iff)
  have sn: "set ns \<subseteq> set ?cs" using ns(5) by (metis mset_eq_setD subset_refl)
  have put: "put_order d tn (Some ord) = (Ordered ?w, ?w)"
    using assms(1,2,5) ns(1) unfolding put_order_def Let_def srt by simp
  have len: "length ?w = length ?ds" using ns(2) by (simp add: length_reordered)
  have slots: "\<forall>i < length ?ds. \<exists>r \<in> set ?ds.
         ?w ! i = Some (r\<lparr>position := Some (int i + 1)\<rparr>) \<and>
         (design_id (?ds ! i) \<notin> set ord \<longrightarrow> r = ?ds ! i)"
  proof (intro allI impI)
    fix i assume i: "i < length ?ds"
    then have i': "i < length ns" using ns(2) by simp
    from reordered_nth[OF dn sn i'] obtain r where
      r: "r \<in> set ?ds" "design_id r = ns ! i"
         "?w ! i = Some (r\<lparr>position := Some (int i + 1)\<rparr>)" by blast
    have "r = ?ds ! i" if "design_id (?ds ! i) \<notin> set ord"
    proof -
      from that i ns(3) have "ns ! i = design_id (?ds ! i)" by simp
      with r(2) have "design_id r = design_id (?ds ! i)" by simp
      moreover have "inj_on design_id (set ?ds)" using assms(4) by (simp add: distinct_map)
      moreover have "?ds ! i \<in> set ?ds" using i by simp
      ultimately show ?thesis using r(1) by (meson inj_onD)
    qed
    with r show "\<exists>r \<in> set ?ds.
         ?w ! i = Some (r\<lparr>position := Some (int i + 1)\<rparr>) \<and>
         (design_id (?ds ! i) \<notin> set ord \<longrightarrow> r = ?ds ! i)" by blast
  qed
  have ids: "filter (\<lambda>k. k \<in> set ord) (map design_id (map the ?w)) = ord"
    using reordered_ids[OF dn sn] ns(4) by simp
  from put len slots ids show ?thesis by blast
qed

theorem reorder_theme_substitution_witness:
  "(\<exists>w. put_order four_tiles ''neo'' (Some [''D'', ''B'']) = (Ordered w, w) \<and>
     length w = length (designs four_tiles) \<and>
     (\<forall>i < length (designs four_tiles). \<exists>r \<in> set (designs four_tiles).
         w ! i = Some (r\<lparr>position := Some (int i + 1)\<rparr>) \<and>
         (design_id (designs four_tiles ! i) \<notin> set [''D'', ''B''] \<longrightarrow> r = designs four_tiles ! i)) \<and>
     filter (\<lambda>k. k \<in> set [''D'', ''B'']) (map design_id (map the w)) = [''D'', ''B'']) \<and>
   map (map_option design_id) (snd (put_order four_tiles ''neo'' (Some [''D'', ''B'']))) =
     [Some ''A'', Some ''D'', Some ''C'', Some ''B'']"
proof (rule conjI)
  have ids: "map design_id (designs four_tiles) = [''A'', ''B'', ''C'', ''D'']"
    by (simp add: four_tiles_def seeded_def tile_def)
  have h1: "''neo'' \<noteq> []" and h2: "''neo'' \<noteq> ''all''" by simp_all
  have h3: "position_sorted (designs four_tiles)"
    by (simp add: position_sorted_def compare_designs_def position_key_def created_key_def
        four_tiles_def seeded_def tile_def)
  have h4: "distinct (map design_id (designs four_tiles))" unfolding ids by simp
  have h5: "[''D'', ''B''] \<noteq> []" by simp
  have h6: "distinct [''D'', ''B'']" by simp
  have h7: "set [''D'', ''B''] \<subseteq> set (map design_id (designs four_tiles))"
    unfolding ids by simp
  show "\<exists>w. put_order four_tiles ''neo'' (Some [''D'', ''B'']) = (Ordered w, w) \<and>
     length w = length (designs four_tiles) \<and>
     (\<forall>i < length (designs four_tiles). \<exists>r \<in> set (designs four_tiles).
         w ! i = Some (r\<lparr>position := Some (int i + 1)\<rparr>) \<and>
         (design_id (designs four_tiles ! i) \<notin> set [''D'', ''B''] \<longrightarrow> r = designs four_tiles ! i)) \<and>
     filter (\<lambda>k. k \<in> set [''D'', ''B'']) (map design_id (map the w)) = [''D'', ''B'']"
    using h1 h2 h3 h4 h5 h6 h7 by (rule reorder_theme_substitution)
  show "map (map_option design_id) (snd (put_order four_tiles ''neo'' (Some [''D'', ''B'']))) =
     [Some ''A'', Some ''D'', Some ''C'', Some ''B'']"
    by (simp add: put_order_def reordered_def byId_of_def js_sort_def compare_designs_def
        position_key_def created_key_def four_tiles_def tile_def seeded_def Let_def)
qed

text \<open>
  Claim C3, as stated, fails on a supplied sequence with a duplicate, although all its
  members are ids of the catalogue: with \<^verbatim>\<open>["D", "D", "B"]\<close> the slot of \<^verbatim>\<open>B\<close> and the slot
  of \<^verbatim>\<open>D\<close> both receive \<^verbatim>\<open>D\<close>, whose position is set twice and ends as 4, so the record
  in slot 1 does not have position 2; \<^verbatim>\<open>B\<close> is not in the result.
\<close>

theorem reorder_theme_duplicate_counterexample:
  "position_sorted (designs four_tiles) \<and>
   set [''D'', ''D'', ''B''] \<subseteq> set (map design_id (designs four_tiles)) \<and>
   map (map_option (\<lambda>r. (design_id r, position r)))
     (snd (put_order four_tiles ''neo'' (Some [''D'', ''D'', ''B'']))) =
     [Some (''A'', Some 1), Some (''D'', Some 4), Some (''C'', Some 3), Some (''D'', Some 4)]"
proof (intro conjI)
  show "position_sorted (designs four_tiles)"
    by (simp add: position_sorted_def compare_designs_def position_key_def created_key_def
        four_tiles_def seeded_def tile_def)
  show "set [''D'', ''D'', ''B''] \<subseteq> set (map design_id (designs four_tiles))"
    by (simp add: four_tiles_def seeded_def tile_def)
  show "map (map_option (\<lambda>r. (design_id r, position r)))
     (snd (put_order four_tiles ''neo'' (Some [''D'', ''D'', ''B'']))) =
     [Some (''A'', Some 1), Some (''D'', Some 4), Some (''C'', Some 3), Some (''D'', Some 4)]"
    by (simp add: put_order_def reordered_def byId_of_def js_sort_def compare_designs_def
        position_key_def created_key_def four_tiles_def tile_def seeded_def Let_def)
qed

end
